theory Spec2Isabelle
  imports Main "HOL-Library.Char_ord" "HOL-Library.List_Lexorder"
begin

section \<open>Strings\<close>

text \<open>
  The scripts are TypeScript. A string is modelled as a list of characters, one
  \<^typ>\<open>char\<close> per code unit, for code units below 256. Lookup tables written as
  object literals (\<open>Record<string, T>\<close>) are modelled as association lists read with
  \<^const>\<open>map_of\<close>. The tables \<open>priorityMap\<close> and \<open>statusMap\<close> hold the keys written in the
  literal only; the table of \<open>getStatusPriority\<close>, which decides the downgrade guard, also
  has the members that an object literal inherits from \<open>Object.prototype\<close>.
\<close>

definition NL :: char where
  "NL = CHR 0x0A"

definition QUOTE :: char where
  "QUOTE = CHR 0x27"

text \<open>\<open>\<bsol>d\<close> of a regular expression without the unicode flag.\<close>

definition is_digit :: "char \<Rightarrow> bool" where
  "is_digit c = (c \<in> set ''0123456789'')"

text \<open>\<open>\<bsol>s\<close>, and the characters \<open>trim()\<close> removes: tab, line feed, vertical tab, form
  feed, carriage return, space and the no-break space.\<close>

definition is_space :: "char \<Rightarrow> bool" where
  "is_space c = (c \<in> set [CHR 0x09, CHR 0x0A, CHR 0x0B, CHR 0x0C, CHR 0x0D, CHR 0x20, CHR 0xA0])"

text \<open>\<open>String.prototype.toLowerCase\<close>: the letters A to Z and the upper-case letters
  of the range 192 to 222 move up by 32, which sets bit 5.\<close>

fun toLowerChar :: "char \<Rightarrow> char" where
  "toLowerChar (Char b0 b1 b2 b3 b4 b5 b6 b7) =
     (let n = (of_char (Char b0 b1 b2 b3 b4 b5 b6 b7) :: nat)
      in if (65 \<le> n \<and> n \<le> 90) \<or> (192 \<le> n \<and> n \<le> 222 \<and> n \<noteq> 215)
         then Char b0 b1 b2 b3 b4 True b6 b7
         else Char b0 b1 b2 b3 b4 b5 b6 b7)"

definition toLowerCase :: "string \<Rightarrow> string" where
  "toLowerCase s = map toLowerChar s"

definition startsWith :: "string \<Rightarrow> string \<Rightarrow> bool" where
  "startsWith s p = (take (length p) s = p)"

definition trim :: "string \<Rightarrow> string" where
  "trim s = rev (dropWhile is_space (rev (dropWhile is_space s)))"

text \<open>\<open>s.split(c)\<close> for a one-character separator: the empty string gives one empty
  piece, and a trailing separator gives a last empty piece.\<close>

fun split_on :: "char \<Rightarrow> string \<Rightarrow> string list" where
  "split_on c [] = [[]]"
| "split_on c (x # xs) =
     (if x = c then [] # split_on c xs
      else (case split_on c xs of
              [] \<Rightarrow> [[x]]
            | l # ls \<Rightarrow> (x # l) # ls))"

text \<open>\<open>lines.join(sep)\<close>.\<close>

fun join_with :: "string \<Rightarrow> string list \<Rightarrow> string" where
  "join_with sep [] = []"
| "join_with sep [l] = l"
| "join_with sep (l # m # ls) = l @ sep @ join_with sep (m # ls)"

text \<open>The first index at which a test holds, as the \<open>for\<close> loops with \<open>break\<close> find it.\<close>

fun findIndex :: "('a \<Rightarrow> bool) \<Rightarrow> 'a list \<Rightarrow> nat option" where
  "findIndex P [] = None"
| "findIndex P (x # xs) =
     (if P x then Some 0
      else (case findIndex P xs of None \<Rightarrow> None | Some i \<Rightarrow> Some (Suc i)))"

section \<open>Spec identifiers\<close>

datatype level = Epic | Feature | Task | Subtask | Extension

record SpecIdParts =
  epic :: string
  feature :: "string option"
  task :: "string option"
  subtask :: "string option"
  extension :: "string option"
  level :: level

text \<open>A segment \<open>K\<bsol>d+\<close>: the letter, then one digit or more.\<close>

definition segment :: "char \<Rightarrow> string \<Rightarrow> bool" where
  "segment k s = (case s of [] \<Rightarrow> False | c # ds \<Rightarrow> c = k \<and> ds \<noteq> [] \<and> list_all is_digit ds)"

text \<open>An optional group \<open>(?:-(K\<bsol>d+))?\<close> read against the pieces that are left.\<close>

definition optionalSegment :: "char \<Rightarrow> string list \<Rightarrow> string option \<times> string list" where
  "optionalSegment k r =
     (case r of
        [] \<Rightarrow> (None, [])
      | g # gs \<Rightarrow> if segment k g then (Some g, gs) else (None, r))"

text \<open>
  \<open>parseSpecId\<close> matches \<open>^(E\<bsol>d+)(?:-(F\<bsol>d+))?(?:-(T\<bsol>d+))?(?:-(S\<bsol>d+))?(?:-(X\<bsol>d+))?$\<close>.
  No segment contains a hyphen, so the match is read off the hyphen-separated pieces:
  the first is the epic, the others are taken by the optional groups in their order,
  and none may be left over.
\<close>

definition parseSpecId :: "string \<Rightarrow> SpecIdParts option" where
  "parseSpecId specId =
     (case split_on (CHR ''-'') specId of
        [] \<Rightarrow> None
      | e # r0 \<Rightarrow>
          if \<not> segment (CHR ''E'') e then None
          else
            (let (f, r1) = optionalSegment (CHR ''F'') r0;
                 (t, r2) = optionalSegment (CHR ''T'') r1;
                 (s, r3) = optionalSegment (CHR ''S'') r2;
                 (x, r4) = optionalSegment (CHR ''X'') r3
             in if r4 \<noteq> [] then None
                else Some \<lparr> epic = e, feature = f, task = t, subtask = s, extension = x,
                            level = (if x \<noteq> None then Extension
                                     else if s \<noteq> None then Subtask
                                     else if t \<noteq> None then Task
                                     else if f \<noteq> None then Feature
                                     else Epic) \<rparr>))"

section \<open>Status reconciler\<close>

text \<open>
  \<open>mapPriorityToClickUp\<close> and \<open>mapStatusToClickUp\<close> read their table with the lower-cased
  value of the document and fall back to a default with \<open>||\<close>. The model has the keys that
  are written in the two tables. For \<open>constructor\<close> and \<open>__proto__\<close>, the two lower-case
  names that an object literal inherits, the script reads a member of \<open>Object.prototype\<close>
  in place of a priority or a status name; what the service does with a request that
  carries such a value is outside the model, which gives the default for these two keys
  as for every other key that is not written.
\<close>

definition priorityMap :: "(string \<times> nat) list" where
  "priorityMap =
     [(''urgent'', 1), (''critical'', 1), (''high'', 2), (''normal'', 3), (''medium'', 3),
      (''low'', 4)]"

definition mapPriorityToClickUp :: "string \<Rightarrow> nat" where
  "mapPriorityToClickUp priority =
     (case map_of priorityMap (toLowerCase priority) of
        Some p \<Rightarrow> p
      | None \<Rightarrow> 3)"

definition statusMap :: "(string \<times> string) list" where
  "statusMap =
     [(''draft'', ''DRAFT''),
      (''planned'', ''PLANNED''),
      (''in-progress'', ''IN PROGRESS''),
      (''in_progress'', ''IN PROGRESS''),
      (''completed'', ''COMPLETE''),
      (''complete'', ''COMPLETE''),
      (''blocked'', ''BLOCKED''),
      (''review'', ''REVIEW''),
      (''testing'', ''TESTING''),
      (''cancelled'', ''CANCELLED''),
      (''canceled'', ''CANCELLED''),
      (''abandoned'', ''CANCELLED'')]"

definition mapStatusToClickUp :: "string \<Rightarrow> string" where
  "mapStatusToClickUp status =
     (case map_of statusMap (toLowerCase status) of
        Some s \<Rightarrow> s
      | None \<Rightarrow> ''DRAFT'')"

definition statusPriority :: "(string \<times> nat) list" where
  "statusPriority =
     [(''DRAFT'', 1),
      (''PLANNED'', 2),
      (''BLOCKED'', 3),
      (''IN PROGRESS'', 4),
      (''REVIEW'', 5),
      (''TESTING'', 6),
      (''COMPLETE'', 7),
      (''CANCELLED'', 0)]"

text \<open>
  \<open>getStatusPriority\<close> reads its table with the status as it comes, \<open>statusPriority[status]
  ?? 0\<close>. The table is an object literal, so a status that is the name of a member of
  \<open>Object.prototype\<close> reads that member, which is a function or, for \<open>__proto__\<close>, the
  prototype object itself; neither is \<open>null\<close> or \<open>undefined\<close>, and \<open>?? 0\<close> leaves it there.
  \<open>Member k\<close> is the member named \<open>k\<close>.
\<close>

definition objectPrototypeMembers :: "string list" where
  "objectPrototypeMembers =
     [''constructor'', ''__defineGetter__'', ''__defineSetter__'', ''hasOwnProperty'',
      ''__lookupGetter__'', ''__lookupSetter__'', ''isPrototypeOf'', ''propertyIsEnumerable'',
      ''toString'', ''valueOf'', ''__proto__'', ''toLocaleString'']"

datatype priority = Number nat | Member string

definition getStatusPriority :: "string \<Rightarrow> priority" where
  "getStatusPriority status =
     (case map_of statusPriority status of
        Some p \<Rightarrow> Number p
      | None \<Rightarrow> if status \<in> set objectPrototypeMembers then Member status else Number 0)"

text \<open>
  The string that a member converts to when \<open>>\<close> compares it: the source text of a
  built-in function as Node prints it, and \<open>[object Object]\<close> for the prototype object.
  The member \<open>constructor\<close> is the function \<open>Object\<close>.
\<close>

definition memberText :: "string \<Rightarrow> string" where
  "memberText k =
     (if k = ''__proto__'' then ''[object Object]''
      else ''function '' @ (if k = ''constructor'' then ''Object'' else k)
             @ ''() { [native code] }'')"

text \<open>
  \<open>a > b\<close> on what \<open>getStatusPriority\<close> returns. Two numbers compare as numbers. A member
  against a number converts to its string and then to \<open>NaN\<close>, and the comparison is
  false. Two members compare as strings, by code units.
\<close>

definition greater :: "priority \<Rightarrow> priority \<Rightarrow> bool" where
  "greater a b =
     (case a of
        Number x \<Rightarrow> (case b of Number y \<Rightarrow> x > y | Member l \<Rightarrow> False)
      | Member k \<Rightarrow> (case b of Number y \<Rightarrow> False | Member l \<Rightarrow> memberText l < memberText k))"

definition isStatusDowngrade :: "string \<Rightarrow> string \<Rightarrow> bool" where
  "isStatusDowngrade currentStatus newStatus =
     (if currentStatus = ''CANCELLED'' \<or> newStatus = ''CANCELLED'' then False
      else greater (getStatusPriority currentStatus) (getStatusPriority newStatus))"

text \<open>
  The status vocabulary of the specification in the order of its ordinal table: the
  status at position \<open>i\<close> has ordinal \<open>i + 1\<close>, from \<open>DRAFT\<close> = 1 to \<open>COMPLETE\<close> = 7.
  \<open>CANCELLED\<close> stands outside the order.
\<close>

definition orderedStatuses :: "string list" where
  "orderedStatuses =
     [''DRAFT'', ''PLANNED'', ''BLOCKED'', ''IN PROGRESS'', ''REVIEW'', ''TESTING'', ''COMPLETE'']"

section \<open>Write-back of the remote identifier\<close>

text \<open>
  The spec documents on disk: a map from a path below the \<open>specs\<close> directory, given
  by its segments, to the text of the file.
\<close>

type_synonym files = "string list \<rightharpoonup> string"

definition pushIf :: "string option \<Rightarrow> string list" where
  "pushIf part = (case part of None \<Rightarrow> [] | Some p \<Rightarrow> [p])"

definition specFilePath :: "string \<Rightarrow> SpecIdParts \<Rightarrow> string list" where
  "specFilePath specId parts =
     [epic parts] @ pushIf (feature parts) @ pushIf (task parts) @ pushIf (subtask parts)
       @ pushIf (extension parts) @ [specId @ ''.spec.md'']"

text \<open>
  The test \<open>content.match(/clickup_task_id:\<bsol>s*'([^']+)'/)\<close>. \<open>matchQuotedId\<close> tries the
  pattern at the start of a text: the field name, white space, a quote, one character or
  more other than a quote, and a closing quote; its value is the group. The white
  space and the group are runs that end at the first character outside their class, so
  no other way of matching exists at that position. \<open>existingIdMatch\<close> takes the
  leftmost position at which the pattern matches.
\<close>

definition matchQuotedId :: "string \<Rightarrow> string option" where
  "matchQuotedId s =
     (if \<not> startsWith s ''clickup_task_id:'' then None
      else (case dropWhile is_space (drop (length ''clickup_task_id:'') s) of
              [] \<Rightarrow> None
            | q # r \<Rightarrow>
                if q \<noteq> QUOTE then None
                else (let g = takeWhile (\<lambda>c. c \<noteq> QUOTE) r
                      in if g = [] then None
                         else (case dropWhile (\<lambda>c. c \<noteq> QUOTE) r of
                                 [] \<Rightarrow> None
                               | _ # _ \<Rightarrow> Some g))))"

fun existingIdMatch :: "string \<Rightarrow> string option" where
  "existingIdMatch [] = matchQuotedId []"
| "existingIdMatch (c # cs) =
     (case matchQuotedId (c # cs) of
        Some g \<Rightarrow> Some g
      | None \<Rightarrow> existingIdMatch cs)"

text \<open>A line that matches \<open>/^clickup_task_id:/\<close>.\<close>

definition fieldLine :: "string \<Rightarrow> bool" where
  "fieldLine l = startsWith l ''clickup_task_id:''"

text \<open>A line that matches \<open>/^id:\<bsol>s+/\<close>.\<close>

definition idLine :: "string \<Rightarrow> bool" where
  "idLine l =
     (startsWith l ''id:'' \<and>
      (case drop (length ''id:'') l of [] \<Rightarrow> False | c # _ \<Rightarrow> is_space c))"

definition newFieldLine :: "string \<Rightarrow> string" where
  "newFieldLine clickupTaskId = ''clickup_task_id: '' @ [QUOTE] @ clickupTaskId @ [QUOTE]"

text \<open>
  What one call of \<open>updateSpecFileWithTaskId\<close> reports: each value stands for the
  line the function prints, and \<open>wrote\<close> is the boolean it returns.
\<close>

datatype writeback =
    InvalidSpecId
  | SpecFileNotFound
  | AlreadySet string
  | NoIdLine
  | Updated
  | Added

definition wrote :: "writeback \<Rightarrow> bool" where
  "wrote r = (r = Updated \<or> r = Added)"

definition updateSpecFileWithTaskId :: "string \<Rightarrow> string \<Rightarrow> files \<Rightarrow> writeback \<times> files" where
  "updateSpecFileWithTaskId specId clickupTaskId fs =
     (case parseSpecId specId of
        None \<Rightarrow> (InvalidSpecId, fs)
      | Some parts \<Rightarrow>
          (let specFile = specFilePath specId parts
           in case fs specFile of
                None \<Rightarrow> (SpecFileNotFound, fs)
              | Some content \<Rightarrow>
                  (case (case existingIdMatch content of
                           None \<Rightarrow> None
                         | Some g \<Rightarrow> if g \<noteq> [] \<and> trim g \<noteq> [] then Some g else None) of
                     Some g \<Rightarrow> (AlreadySet g, fs)
                   | None \<Rightarrow>
                       (let lines = split_on NL content
                        in case findIndex fieldLine lines of
                             Some i \<Rightarrow>
                               (Updated,
                                fs(specFile \<mapsto>
                                     join_with [NL] (lines[i := newFieldLine clickupTaskId])))
                           | None \<Rightarrow>
                               (case findIndex idLine lines of
                                  None \<Rightarrow> (NoIdLine, fs)
                                | Some i \<Rightarrow>
                                    (Added,
                                     fs(specFile \<mapsto>
                                          join_with [NL]
                                            (take (i + 1) lines @ [newFieldLine clickupTaskId]
                                               @ drop (i + 1) lines))))))))"

text \<open>A remote identifier as the service hands it out: not empty, no quote, no white
  space.\<close>

definition remoteIdToken :: "string \<Rightarrow> bool" where
  "remoteIdToken t = (t \<noteq> [] \<and> list_all (\<lambda>c. c \<noteq> QUOTE \<and> \<not> is_space c) t)"

section \<open>The remote service\<close>

text \<open>
  The records follow the interfaces of the script. Each one also carries the identifier
  of the container it lives in, as the service returns it, so that the state of the
  service can be one list of folders, one of lists and one of items. Subtasks and
  extensions are items of the same list as their task, linked by \<open>task_parent\<close>.
\<close>

record ClickUpFolder =
  folder_id :: string
  folder_name :: string
  folder_space :: string

record ClickUpList =
  list_id :: string
  list_name :: string
  list_folder :: string

record ClickUpTask =
  task_id :: string
  task_name :: string
  task_description :: string
  task_status :: string
  task_priority :: nat
  task_tags :: "string list"
  task_parent :: "string option"
  task_list :: string

text \<open>
  The body of a create call and of an update call. The start date and the time
  estimate of a new item come from date parsing and floating-point arithmetic and are
  left out; no decision of the engine reads them. The engine sets one field per update.
\<close>

record TaskData =
  new_name :: string
  new_description :: string
  new_status :: string
  new_priority :: nat
  new_tags :: "string list"

record UpdateData =
  upd_name :: "string option"
  upd_status :: "string option"
  upd_parent :: "string option"

definition setName :: "string \<Rightarrow> UpdateData" where
  "setName n = \<lparr> upd_name = Some n, upd_status = None, upd_parent = None \<rparr>"

definition setStatus :: "string \<Rightarrow> UpdateData" where
  "setStatus s = \<lparr> upd_name = None, upd_status = Some s, upd_parent = None \<rparr>"

definition setParent :: "string \<Rightarrow> UpdateData" where
  "setParent p = \<lparr> upd_name = None, upd_status = None, upd_parent = Some p \<rparr>"

text \<open>The calls that change the service, in the order in which the client issues them.\<close>

datatype call =
    CreateFolder string string
  | CreateList string string
  | CreateTask string TaskData
  | UpdateTask string UpdateData

section \<open>Spec documents\<close>

text \<open>The header fields that the engine reads, and the loaded document.\<close>

record SpecMetadata =
  clickup_task_id :: "string option"
  title :: string
  status :: string
  priority :: string
  tags :: "string list"

record SpecData =
  metadata :: SpecMetadata
  markdownContent :: string

section \<open>Console output\<close>

text \<open>
  One constructor for each message that the sync functions print; the \<open>level\<close> tells
  which of the functions printed it. The lines that start with \<open>[DRY RUN]\<close> are the
  constructors \<open>DryRun...\<close>. \<open>WriteBack\<close> is the line that \<open>updateSpecFileWithTaskId\<close>
  prints.
\<close>

datatype line =
    SpecNotFound level string
  | Banner level string string
  | ContainerExists level string
  | DryRunWouldCreateContainer level string
  | CreatingContainer level string
  | CreatedContainer level string
  | SkippingSync level
  | FoundChildren level nat
  | InvalidFeatureId string
  | NoTasksFound string
  | ItemExists level string string
  | DryRunWouldUpdateName level string string
  | UpdatingName level string string
  | NameUpdated level
  | PromotingParent nat
  | SkippingDowngrade level string string
  | DryRunWouldUpdateStatus level string string
  | UpdatingStatus level string string
  | StatusUpdated level string
  | DryRunWouldCreateItem level string string
  | CreatingItem level string string
  | TimeEstimateLine level
  | CreatedItem level string
  | WriteBack string writeback

section \<open>The world of one run\<close>

text \<open>
  The state that a run reads and changes: the service (\<open>folders\<close>, \<open>lists\<close>, \<open>tasks\<close>, and
  \<open>idSupply\<close>, the identifiers that the service will give to the next things created),
  the disk (\<open>files\<close>, and \<open>dirs\<close>, which maps a directory below \<open>specs\<close> to the names of its
  sub-directories), the calls issued so far and the lines printed so far.

  A read of the service always answers. A create call fails when the service has no
  identifier left, and an update call fails when no item has the identifier; the client
  then throws, and nothing in the sync functions catches it. \<open>Exn\<close> is a run that
  threw, with the world at that point.
\<close>

record world =
  folders :: "ClickUpFolder list"
  lists :: "ClickUpList list"
  tasks :: "ClickUpTask list"
  idSupply :: "string list"
  files :: files
  dirs :: "string list \<rightharpoonup> string list"
  calls :: "call list"
  out :: "line list"

datatype 'a res = Ret 'a world | Exn world

definition await :: "'a res \<Rightarrow> ('a \<Rightarrow> world \<Rightarrow> 'b res) \<Rightarrow> 'b res" where
  "await r k = (case r of Exn w \<Rightarrow> Exn w | Ret x w \<Rightarrow> k x w)"

fun forEach :: "('a \<Rightarrow> world \<Rightarrow> unit res) \<Rightarrow> 'a list \<Rightarrow> world \<Rightarrow> unit res" where
  "forEach f [] w = Ret () w"
| "forEach f (x # xs) w = await (f x w) (\<lambda>_. forEach f xs)"

definition say :: "line \<Rightarrow> world \<Rightarrow> world" where
  "say l w = w\<lparr> out := out w @ [l] \<rparr>"

definition issue :: "call \<Rightarrow> world \<Rightarrow> world" where
  "issue c w = w\<lparr> calls := calls w @ [c] \<rparr>"

section \<open>The client\<close>

definition getFolders :: "string \<Rightarrow> world \<Rightarrow> ClickUpFolder list" where
  "getFolders spaceId w = filter (\<lambda>f. folder_space f = spaceId) (folders w)"

definition findFolder :: "string \<Rightarrow> string \<Rightarrow> world \<Rightarrow> ClickUpFolder option" where
  "findFolder spaceId folderName w =
     find (\<lambda>f. folder_name f = folderName) (getFolders spaceId w)"

definition createFolder :: "string \<Rightarrow> string \<Rightarrow> world \<Rightarrow> ClickUpFolder res" where
  "createFolder spaceId name w =
     (case idSupply w of
        [] \<Rightarrow> Exn (issue (CreateFolder spaceId name) w)
      | i # rest \<Rightarrow>
          (let f = \<lparr> folder_id = i, folder_name = name, folder_space = spaceId \<rparr>
           in Ret f ((issue (CreateFolder spaceId name) w)
                       \<lparr> folders := folders w @ [f], idSupply := rest \<rparr>)))"

definition getLists :: "string \<Rightarrow> world \<Rightarrow> ClickUpList list" where
  "getLists folderId w = filter (\<lambda>l. list_folder l = folderId) (lists w)"

definition createList :: "string \<Rightarrow> string \<Rightarrow> world \<Rightarrow> ClickUpList res" where
  "createList folderId name w =
     (case idSupply w of
        [] \<Rightarrow> Exn (issue (CreateList folderId name) w)
      | i # rest \<Rightarrow>
          (let l = \<lparr> list_id = i, list_name = name, list_folder = folderId \<rparr>
           in Ret l ((issue (CreateList folderId name) w)
                       \<lparr> lists := lists w @ [l], idSupply := rest \<rparr>)))"

definition findList :: "string \<Rightarrow> string \<Rightarrow> world \<Rightarrow> ClickUpList option" where
  "findList folderId listName w =
     find (\<lambda>l. list_name l = listName) (getLists folderId w)"

definition createTask :: "string \<Rightarrow> TaskData \<Rightarrow> world \<Rightarrow> ClickUpTask res" where
  "createTask listId taskData w =
     (case idSupply w of
        [] \<Rightarrow> Exn (issue (CreateTask listId taskData) w)
      | i # rest \<Rightarrow>
          (let t = \<lparr> task_id = i, task_name = new_name taskData,
                     task_description = new_description taskData,
                     task_status = new_status taskData,
                     task_priority = new_priority taskData,
                     task_tags = new_tags taskData,
                     task_parent = None, task_list = listId \<rparr>
           in Ret t ((issue (CreateTask listId taskData) w)
                       \<lparr> tasks := tasks w @ [t], idSupply := rest \<rparr>)))"

definition applyUpdate :: "UpdateData \<Rightarrow> ClickUpTask \<Rightarrow> ClickUpTask" where
  "applyUpdate d t =
     t\<lparr> task_name := (case upd_name d of None \<Rightarrow> task_name t | Some n \<Rightarrow> n),
        task_status := (case upd_status d of None \<Rightarrow> task_status t | Some s \<Rightarrow> s),
        task_parent := (case upd_parent d of None \<Rightarrow> task_parent t | Some p \<Rightarrow> Some p) \<rparr>"

definition updateTask :: "string \<Rightarrow> UpdateData \<Rightarrow> world \<Rightarrow> unit res" where
  "updateTask taskId updateData w =
     (if list_ex (\<lambda>t. task_id t = taskId) (tasks w)
      then Ret () ((issue (UpdateTask taskId updateData) w)
                    \<lparr> tasks := map (\<lambda>t. if task_id t = taskId then applyUpdate updateData t
                                         else t) (tasks w) \<rparr>)
      else Exn (issue (UpdateTask taskId updateData) w))"

definition getTasks :: "string \<Rightarrow> world \<Rightarrow> ClickUpTask list" where
  "getTasks listId w = filter (\<lambda>t. task_list t = listId) (tasks w)"

definition findTaskByCustomId :: "string \<Rightarrow> string \<Rightarrow> world \<Rightarrow> ClickUpTask option" where
  "findTaskByCustomId listId customId w =
     find (\<lambda>t. startsWith (task_name t) (customId @ '':'')) (getTasks listId w)"

definition findSubtaskByCustomId :: "string \<Rightarrow> string \<Rightarrow> world \<Rightarrow> ClickUpTask option" where
  "findSubtaskByCustomId listId customId w =
     find (\<lambda>t. startsWith (task_name t) (customId @ '':'')) (getTasks listId w)"

section \<open>The hierarchy sync engine\<close>

text \<open>
  The sub-directories of a directory that match \<open>/^K\<bsol>d+$/\<close>, each prefixed with the
  identifier of the parent, sorted as \<open>Array.prototype.sort\<close> sorts strings: by their
  code units.
\<close>

definition childDirs :: "char \<Rightarrow> string \<Rightarrow> string list \<Rightarrow> string list" where
  "childDirs k parentId entries =
     sort (map (\<lambda>n. parentId @ ''-'' @ n) (filter (segment k) entries))"

text \<open>
  The three functions \<open>syncTask\<close>, \<open>syncSubtask\<close> and \<open>syncExtension\<close> reconcile the
  name and the status of an item that exists with the same statements, apart from the
  words and the indentation of the messages. \<open>reconcileName\<close> and \<open>reconcileStatus\<close>
  are these statements, with the level for the messages.
\<close>

definition reconcileName :: "level \<Rightarrow> ClickUpTask \<Rightarrow> string \<Rightarrow> bool \<Rightarrow> world \<Rightarrow> unit res" where
  "reconcileName lv existing expectedName dryRun w =
     (if task_name existing \<noteq> expectedName then
        (if dryRun then
           Ret () (say (DryRunWouldUpdateName lv (task_name existing) expectedName) w)
         else
           await (updateTask (task_id existing) (setName expectedName)
                    (say (UpdatingName lv (task_name existing) expectedName) w))
             (\<lambda>_ w'. Ret () (say (NameUpdated lv) w')))
      else Ret () w)"

definition reconcileStatus :: "level \<Rightarrow> ClickUpTask \<Rightarrow> string \<Rightarrow> bool \<Rightarrow> world \<Rightarrow> unit res" where
  "reconcileStatus lv existing newStatus dryRun w =
     (let currentStatus = task_status existing
      in if currentStatus \<noteq> newStatus then
           (if isStatusDowngrade currentStatus newStatus then
              Ret () (say (SkippingDowngrade lv currentStatus newStatus) w)
            else if dryRun then
              Ret () (say (DryRunWouldUpdateStatus lv currentStatus newStatus) w)
            else
              await (updateTask (task_id existing) (setStatus newStatus)
                       (say (UpdatingStatus lv currentStatus newStatus) w))
                (\<lambda>_ w'. Ret () (say (StatusUpdated lv newStatus) w')))
         else Ret () w)"

text \<open>The body with which the three functions create an item.\<close>

definition taskDataOf :: "string \<Rightarrow> SpecData \<Rightarrow> TaskData" where
  "taskDataOf specId specData =
     \<lparr> new_name = specId @ '': '' @ title (metadata specData),
       new_description = markdownContent specData,
       new_status = mapStatusToClickUp (status (metadata specData)),
       new_priority = mapPriorityToClickUp (priority (metadata specData)),
       new_tags = tags (metadata specData) \<rparr>"

text \<open>The call of \<open>updateSpecFileWithTaskId\<close>, whose result the engine does not read.\<close>

definition writeBack :: "string \<Rightarrow> string \<Rightarrow> world \<Rightarrow> world" where
  "writeBack specId clickupTaskId w =
     (let (r, fs) = updateSpecFileWithTaskId specId clickupTaskId (files w)
      in say (WriteBack specId r) (w\<lparr> files := fs \<rparr>))"

definition syncSubtask ::
  "string \<Rightarrow> string \<Rightarrow> string \<Rightarrow> (string \<rightharpoonup> SpecData) \<Rightarrow> bool \<Rightarrow> world \<Rightarrow> unit res" where
  "syncSubtask listId parentTaskId subtaskId allSpecs dryRun w =
     (case allSpecs subtaskId of
        None \<Rightarrow> Ret () (say (SpecNotFound Subtask subtaskId) w)
      | Some subtaskData \<Rightarrow>
          (let subtaskSpec = metadata subtaskData
           in case findSubtaskByCustomId listId subtaskId w of
                Some existingSubtask \<Rightarrow>
                  await (reconcileName Subtask existingSubtask
                           (subtaskId @ '': '' @ title subtaskSpec) dryRun
                           (say (ItemExists Subtask subtaskId (title subtaskSpec)) w))
                    (\<lambda>_. reconcileStatus Subtask existingSubtask
                            (mapStatusToClickUp (status subtaskSpec)) dryRun)
              | None \<Rightarrow>
                  if dryRun then
                    Ret () (say (DryRunWouldCreateItem Subtask subtaskId (title subtaskSpec)) w)
                  else
                    await (createTask listId (taskDataOf subtaskId subtaskData)
                             (say (CreatingItem Subtask subtaskId (title subtaskSpec)) w))
                      (\<lambda>subtask w1.
                         await (updateTask (task_id subtask) (setParent parentTaskId)
                                  (say (TimeEstimateLine Subtask) w1))
                           (\<lambda>_ w2. Ret () (writeBack subtaskId (task_id subtask)
                                             (say (CreatedItem Subtask (task_id subtask)) w2))))))"

definition syncExtension ::
  "string \<Rightarrow> string \<Rightarrow> string \<Rightarrow> (string \<rightharpoonup> SpecData) \<Rightarrow> bool \<Rightarrow> world \<Rightarrow> unit res" where
  "syncExtension listId parentSubtaskId extensionId allSpecs dryRun w =
     (case allSpecs extensionId of
        None \<Rightarrow> Ret () (say (SpecNotFound Extension extensionId) w)
      | Some extensionData \<Rightarrow>
          (let extensionSpec = metadata extensionData
           in case findSubtaskByCustomId listId extensionId w of
                Some existingExtension \<Rightarrow>
                  await (reconcileName Extension existingExtension
                           (extensionId @ '': '' @ title extensionSpec) dryRun
                           (say (ItemExists Extension extensionId (title extensionSpec)) w))
                    (\<lambda>_. reconcileStatus Extension existingExtension
                            (mapStatusToClickUp (status extensionSpec)) dryRun)
              | None \<Rightarrow>
                  if dryRun then
                    Ret () (say (DryRunWouldCreateItem Extension extensionId
                                   (title extensionSpec)) w)
                  else
                    await (createTask listId (taskDataOf extensionId extensionData)
                             (say (CreatingItem Extension extensionId (title extensionSpec)) w))
                      (\<lambda>extension w1.
                         await (updateTask (task_id extension) (setParent parentSubtaskId)
                                  (say (TimeEstimateLine Extension) w1))
                           (\<lambda>_ w2. Ret () (writeBack extensionId (task_id extension)
                                             (say (CreatedItem Extension (task_id extension))
                                                w2))))))"

text \<open>
  The sub-directories \<open>S\<bsol>d+\<close> of the directory of a task, as \<open>syncTask\<close> lists them
  in both of its branches: none when the identifier does not parse or has no task
  segment, none when the directory does not exist.
\<close>

definition subtaskDirsOf :: "string \<Rightarrow> world \<Rightarrow> string list" where
  "subtaskDirsOf taskId w =
     (case parseSpecId taskId of
        None \<Rightarrow> []
      | Some parts \<Rightarrow>
          (case task parts of
             None \<Rightarrow> []
           | Some t \<Rightarrow>
               (case dirs w ([epic parts] @ pushIf (feature parts) @ [t]) of
                  None \<Rightarrow> []
                | Some entries \<Rightarrow> childDirs (CHR ''S'') taskId entries)))"

text \<open>
  The target status of a task that exists, as \<open>syncTask\<close> computes it before the
  downgrade guard: the mapped status of the document, raised to \<open>COMPLETE\<close> when
  there are subtask directories and every one of them has a loaded document whose
  mapped status is \<open>COMPLETE\<close>.
\<close>

definition allChildrenComplete :: "(string \<rightharpoonup> SpecData) \<Rightarrow> string list \<Rightarrow> bool" where
  "allChildrenComplete allSpecs subtaskDirs =
     list_all (\<lambda>subtaskId.
                 case allSpecs subtaskId of
                   None \<Rightarrow> False
                 | Some subtaskData \<Rightarrow>
                     mapStatusToClickUp (status (metadata subtaskData)) = ''COMPLETE'')
       subtaskDirs"

definition promotes :: "(string \<rightharpoonup> SpecData) \<Rightarrow> SpecMetadata \<Rightarrow> string list \<Rightarrow> bool" where
  "promotes allSpecs taskSpec subtaskDirs =
     (subtaskDirs \<noteq> [] \<and> allChildrenComplete allSpecs subtaskDirs
      \<and> mapStatusToClickUp (status taskSpec) \<noteq> ''COMPLETE'')"

definition targetStatus :: "(string \<rightharpoonup> SpecData) \<Rightarrow> SpecMetadata \<Rightarrow> string list \<Rightarrow> string" where
  "targetStatus allSpecs taskSpec subtaskDirs =
     (if promotes allSpecs taskSpec subtaskDirs then ''COMPLETE''
      else mapStatusToClickUp (status taskSpec))"

definition syncTask ::
  "string \<Rightarrow> string \<Rightarrow> (string \<rightharpoonup> SpecData) \<Rightarrow> bool \<Rightarrow> world \<Rightarrow> unit res" where
  "syncTask listId taskId allSpecs dryRun w =
     (case allSpecs taskId of
        None \<Rightarrow> Ret () (say (SpecNotFound Task taskId) w)
      | Some taskData \<Rightarrow>
          (let taskSpec = metadata taskData
           in case findTaskByCustomId listId taskId w of
                Some existingTask \<Rightarrow>
                  await (reconcileName Task existingTask (taskId @ '': '' @ title taskSpec) dryRun
                           (say (ItemExists Task taskId (title taskSpec)) w))
                    (\<lambda>_ w1.
                       let subtaskDirs = subtaskDirsOf taskId w1
                       in await (forEach (\<lambda>subtaskId.
                                            syncSubtask listId (task_id existingTask) subtaskId
                                              allSpecs dryRun)
                                   subtaskDirs w1)
                            (\<lambda>_ w2.
                               reconcileStatus Task existingTask
                                 (targetStatus allSpecs taskSpec subtaskDirs) dryRun
                                 (if promotes allSpecs taskSpec subtaskDirs
                                  then say (PromotingParent (length subtaskDirs)) w2
                                  else w2)))
              | None \<Rightarrow>
                  if dryRun then
                    Ret () (say (DryRunWouldCreateItem Task taskId (title taskSpec)) w)
                  else
                    await (createTask listId (taskDataOf taskId taskData)
                             (say (CreatingItem Task taskId (title taskSpec)) w))
                      (\<lambda>newTask w1.
                         let w2 = writeBack taskId (task_id newTask)
                                    (say (CreatedItem Task (task_id newTask))
                                       (say (TimeEstimateLine Task) w1));
                             subtaskDirs = subtaskDirsOf taskId w2
                         in forEach (\<lambda>subtaskId.
                                       syncSubtask listId (task_id newTask) subtaskId allSpecs
                                         dryRun)
                              subtaskDirs
                              (if subtaskDirs \<noteq> []
                               then say (FoundChildren Task (length subtaskDirs)) w2
                               else w2))))"

definition syncFeature ::
  "string \<Rightarrow> string \<Rightarrow> (string \<rightharpoonup> SpecData) \<Rightarrow> bool \<Rightarrow> world \<Rightarrow> unit res" where
  "syncFeature folderId featureId allSpecs dryRun w =
     (case allSpecs featureId of
        None \<Rightarrow> Ret () (say (SpecNotFound Feature featureId) w)
      | Some featureData \<Rightarrow>
          (let featureSpec = metadata featureData;
               w0 = say (Banner Feature featureId (title featureSpec)) w;
               listName = featureId @ '': '' @ title featureSpec
           in await
                (case findList folderId listName w0 of
                   Some l \<Rightarrow> Ret (Some l) (say (ContainerExists Feature listName) w0)
                 | None \<Rightarrow>
                     if dryRun then
                       Ret None (say (DryRunWouldCreateContainer Feature listName) w0)
                     else
                       await (createList folderId listName
                                (say (CreatingContainer Feature listName) w0))
                         (\<lambda>l w'. Ret (Some l) (say (CreatedContainer Feature (list_id l)) w')))
                (\<lambda>found w1.
                   case found of
                     None \<Rightarrow> Ret () (say (SkippingSync Feature) w1)
                   | Some l \<Rightarrow>
                       (case parseSpecId featureId of
                          None \<Rightarrow> Ret () (say (InvalidFeatureId featureId) w1)
                        | Some parts \<Rightarrow>
                            (case feature parts of
                               None \<Rightarrow> Ret () (say (InvalidFeatureId featureId) w1)
                             | Some f \<Rightarrow>
                                 (let taskDirs =
                                        (case dirs w1 [epic parts, f] of
                                           None \<Rightarrow> []
                                         | Some entries \<Rightarrow>
                                             childDirs (CHR ''T'') featureId entries)
                                  in if taskDirs = [] then
                                       Ret () (say (NoTasksFound featureId) w1)
                                     else
                                       forEach (\<lambda>taskId.
                                                  syncTask (list_id l) taskId allSpecs dryRun)
                                         taskDirs
                                         (say (FoundChildren Feature (length taskDirs))
                                            w1)))))))"

text \<open>
  \<open>syncEpic\<close> reads the directory of the epic without testing that it exists:
  \<open>readdirSync\<close> throws when it does not.
\<close>

definition syncEpic ::
  "string \<Rightarrow> string \<Rightarrow> (string \<rightharpoonup> SpecData) \<Rightarrow> bool \<Rightarrow> world \<Rightarrow> unit res" where
  "syncEpic spaceId epicId allSpecs dryRun w =
     (case allSpecs epicId of
        None \<Rightarrow> Ret () (say (SpecNotFound Epic epicId) w)
      | Some epicData \<Rightarrow>
          (let epicSpec = metadata epicData;
               w0 = say (Banner Epic epicId (title epicSpec)) w;
               folderName = epicId @ '' - '' @ title epicSpec
           in await
                (case findFolder spaceId folderName w0 of
                   Some f \<Rightarrow> Ret (Some f) (say (ContainerExists Epic folderName) w0)
                 | None \<Rightarrow>
                     if dryRun then
                       Ret None (say (DryRunWouldCreateContainer Epic folderName) w0)
                     else
                       await (createFolder spaceId folderName
                                (say (CreatingContainer Epic folderName) w0))
                         (\<lambda>f w'. Ret (Some f) (say (CreatedContainer Epic (folder_id f)) w')))
                (\<lambda>found w1.
                   case found of
                     None \<Rightarrow> Ret () (say (SkippingSync Epic) w1)
                   | Some f \<Rightarrow>
                       (case dirs w1 [epicId] of
                          None \<Rightarrow> Exn w1
                        | Some entries \<Rightarrow>
                            (let featureDirs = childDirs (CHR ''F'') epicId entries
                             in forEach (\<lambda>featureId.
                                           syncFeature (folder_id f) featureId allSpecs dryRun)
                                  featureDirs
                                  (say (FoundChildren Epic (length featureDirs)) w1))))))"

section \<open>The two clients and the transport\<close>

text \<open>
  The repository has two classes \<open>ClickUpClient\<close>. Both install the same request
  interceptor, which spaces the requests; they differ in the interval (200 ms in
  \<open>sync-specs-to-clickup.ts\<close>, 1000 ms in the migration script) and in that the
  client of the migration script also installs a response interceptor for the status
  429.

  The transport is a script of answers, one for each request sent; when the script is
  used up the request fails without a response. The clock \<open>now\<close> is \<open>Date.now()\<close> in
  milliseconds; it moves with the timers only, and a timer fires when its delay is over.
  \<open>Send t\<close> is a request that leaves at the time \<open>t\<close>.
\<close>

datatype response =
    Success string
  | Failure "nat option" "string option"

text \<open>
  A number of the script, as far as the clients compute with one. The script computes
  in doubles: \<open>Whole n\<close> is a whole number of magnitude at most \<open>2 ^ 53\<close>, which a double
  holds exactly; \<open>Large\<close> is a double of a magnitude of \<open>2 ^ 53\<close> or more, infinite
  perhaps, that comes from rounding, and the model does not follow which one it is.
\<close>

datatype number = NaN | Whole int | Large

definition exact :: "int \<Rightarrow> number" where
  "exact n = (if \<bar>n\<bar> \<le> 2 ^ 53 then Whole n else Large)"

text \<open>\<open>x * 1000\<close>.\<close>

definition times1000 :: "number \<Rightarrow> number" where
  "times1000 x = (case x of NaN \<Rightarrow> NaN | Whole n \<Rightarrow> exact (n * 1000) | Large \<Rightarrow> Large)"

datatype event =
    Paced int
  | Backoff number
  | Send int

record net =
  answers :: "response list"
  now :: int
  lastRequestTime :: int
  trace :: "event list"

text \<open>
  \<open>await new Promise((resolve) => setTimeout(resolve, delay))\<close>. Node runs a timer for
  the delay when the delay is from 1 to \<open>2 ^ 31 - 1\<close> milliseconds, and for one
  millisecond in every other case: a delay below 1, a delay above \<open>2 ^ 31 - 1\<close> and
  \<open>NaN\<close>.
\<close>

definition timerDelay :: "number \<Rightarrow> int" where
  "timerDelay delay =
     (case delay of
        Whole ms \<Rightarrow> if 1 \<le> ms \<and> ms \<le> 2147483647 then ms else 1
      | _ \<Rightarrow> 1)"

definition setTimeout :: "number \<Rightarrow> net \<Rightarrow> net" where
  "setTimeout delay n = n\<lparr> now := now n + timerDelay delay \<rparr>"

definition record_event :: "event \<Rightarrow> net \<Rightarrow> net" where
  "record_event e n = n\<lparr> trace := trace n @ [e] \<rparr>"

text \<open>The request interceptor of both clients; \<open>Paced\<close> records its wait.\<close>

definition requestInterceptor :: "int \<Rightarrow> net \<Rightarrow> net" where
  "requestInterceptor minRequestInterval n =
     (let timeSinceLastRequest = now n - lastRequestTime n;
          n1 = (if timeSinceLastRequest < minRequestInterval
                then (let waitTime = minRequestInterval - timeSinceLastRequest
                      in setTimeout (exact waitTime) (record_event (Paced waitTime) n))
                else n)
      in n1\<lparr> lastRequestTime := now n1 \<rparr>)"

definition send :: "net \<Rightarrow> response \<times> net" where
  "send n =
     (case answers n of
        [] \<Rightarrow> (Failure None None, record_event (Send (now n)) n)
      | a # rest \<Rightarrow> (a, (record_event (Send (now n)) n)\<lparr> answers := rest \<rparr>))"

text \<open>The client of \<open>sync-specs-to-clickup.ts\<close>: the request interceptor, the request,
  and the answer as it comes. An error answer is \<open>Inl\<close>, the rejected promise.\<close>

definition syncClientRequest :: "net \<Rightarrow> (response + string) \<times> net" where
  "syncClientRequest n =
     (let (a, n1) = send (requestInterceptor 200 n)
      in case a of
           Success d \<Rightarrow> (Inr d, n1)
         | Failure st hdr \<Rightarrow> (Inl a, n1))"

text \<open>
  \<open>parseInt(s, 10)\<close>: white space, a sign, then digits; without a digit the result is
  \<open>NaN\<close>. The digits are read exactly and the value is then rounded to a double.
\<close>

definition digitValue :: "char \<Rightarrow> int" where
  "digitValue c = int (of_char c) - 48"

definition parseInt :: "string \<Rightarrow> number" where
  "parseInt s =
     (let t = dropWhile is_space s;
          negative = (case t of [] \<Rightarrow> False | c # _ \<Rightarrow> c = CHR ''-'');
          u = (case t of [] \<Rightarrow> [] | c # r \<Rightarrow> if c = CHR ''-'' \<or> c = CHR ''+'' then r else t);
          ds = takeWhile is_digit u
      in if ds = [] then NaN
         else exact ((if negative then - 1 else 1) * foldl (\<lambda>a c. 10 * a + digitValue c) 0 ds))"

text \<open>The header read by \<open>error.response.headers['retry-after'] || '60'\<close>.\<close>

definition retryAfterOf :: "string option \<Rightarrow> number" where
  "retryAfterOf hdr =
     parseInt (case hdr of None \<Rightarrow> ''60'' | Some h \<Rightarrow> if h = [] then ''60'' else h)"

text \<open>
  The client of the migration script. The flag is \<open>config._retry\<close>: the response
  interceptor sets it before it sends the same request again, through both
  interceptors. \<open>Backoff\<close> records the delay that the response interceptor asks the
  timer for before the retry.
\<close>

function migrationClientRequest :: "bool \<Rightarrow> net \<Rightarrow> (response + string) \<times> net" where
  "migrationClientRequest retry n =
     (let (a, n1) = send (requestInterceptor 1000 n)
      in case a of
           Success d \<Rightarrow> (Inr d, n1)
         | Failure st hdr \<Rightarrow>
             if st = Some 429 \<and> \<not> retry then
               (let retryAfter = retryAfterOf hdr;
                    waitTime = times1000 retryAfter
                in migrationClientRequest True
                     (setTimeout waitTime (record_event (Backoff waitTime) n1)))
             else (Inl a, n1))"
  by pat_completeness auto
termination
  by (relation "measure (\<lambda>(retry, n). if retry then 0 else 1)") auto

section \<open>Notions used in the statements\<close>

fun worldOf :: "'a res \<Rightarrow> world" where
  "worldOf (Ret x w) = w"
| "worldOf (Exn w) = w"

fun returned :: "'a res \<Rightarrow> bool" where
  "returned (Ret x w) = True"
| "returned (Exn w) = False"

text \<open>The calls issued between two worlds of one run.\<close>

definition issued :: "world \<Rightarrow> world \<Rightarrow> call list" where
  "issued w w' = drop (length (calls w)) (calls w')"

text \<open>A call that sets the status of the item \<open>i\<close>.\<close>

definition statusUpdateFor :: "string \<Rightarrow> call \<Rightarrow> bool" where
  "statusUpdateFor i c =
     (case c of UpdateTask j d \<Rightarrow> j = i \<and> upd_status d \<noteq> None | _ \<Rightarrow> False)"

text \<open>The statuses that the service holds for the identifier \<open>i\<close>.\<close>

definition statusesOf :: "string \<Rightarrow> world \<Rightarrow> string list" where
  "statusesOf i w = map task_status (filter (\<lambda>t. task_id t = i) (tasks w))"

text \<open>The identifiers of the service name one item each, and the identifiers still to
  be given out are new.\<close>

definition uniqueIds :: "world \<Rightarrow> bool" where
  "uniqueIds w = distinct (map task_id (tasks w) @ idSupply w)"

text \<open>What one request adds to the trace, the waits of the request interceptor left
  out.\<close>

definition transcript :: "net \<Rightarrow> net \<Rightarrow> event list" where
  "transcript n n' =
     filter (\<lambda>e. case e of Paced ms \<Rightarrow> False | _ \<Rightarrow> True) (drop (length (trace n)) (trace n'))"

text \<open>
  Two transports that answer the first request with the status 429 and the second with
  a success, five seconds after the request before: the hint is one second in the
  first, and 2147484 seconds, which is more than \<open>2 ^ 31 - 1\<close> milliseconds, in the
  second.
\<close>

definition throttledOnce :: net where
  "throttledOnce =
     \<lparr> answers = [Failure (Some 429) (Some ''1''), Success ''done''],
       now = 5000, lastRequestTime = 0, trace = [] \<rparr>"

definition throttledLong :: net where
  "throttledLong =
     \<lparr> answers = [Failure (Some 429) (Some ''2147484''), Success ''done''],
       now = 5000, lastRequestTime = 0, trace = [] \<rparr>"

text \<open>Nothing but the console output differs between two worlds.\<close>

definition onlyOutput :: "world \<Rightarrow> world \<Rightarrow> bool" where
  "onlyOutput w w' = (w' = w\<lparr> out := out w' \<rparr>)"

text \<open>
  The invariant of the task-level guard, for the item \<open>i\<close> of the task \<open>taskId\<close> and
  the calls issued before the run: identifiers are unique, the item is there, it is
  \<open>COMPLETE\<close> and its name starts with the identifier of the task and a colon, and no
  call issued since then sets its status.
\<close>

definition keepsComplete :: "string \<Rightarrow> string \<Rightarrow> call list \<Rightarrow> world \<Rightarrow> bool" where
  "keepsComplete i taskId before w =
     (uniqueIds w
      \<and> list_ex (\<lambda>t. task_id t = i) (tasks w)
      \<and> list_all (\<lambda>t. task_id t = i \<longrightarrow>
                        task_status t = ''COMPLETE'' \<and> startsWith (task_name t) (taskId @ '':''))
          (tasks w)
      \<and> (\<exists>cs. calls w = before @ cs \<and> \<not> list_ex (statusUpdateFor i) cs))"

text \<open>
  The create and update actions, as a dry run announces them and as a live run
  performs them. An announcement of a creation names the thing to create; a call
  that creates it carries the same name. An update of a name or of a status carries
  the new value on both sides. The update that links a new subtask or extension to its
  parent is part of its creation and has no announcement of its own.
\<close>

datatype action =
    MakeFolder string
  | MakeList string
  | MakeItem string
  | Rename string
  | Restatus string

definition announced :: "line \<Rightarrow> action option" where
  "announced l =
     (case l of
        DryRunWouldCreateContainer lv n \<Rightarrow> Some (if lv = Epic then MakeFolder n else MakeList n)
      | DryRunWouldCreateItem lv i t \<Rightarrow> Some (MakeItem (i @ '': '' @ t))
      | DryRunWouldUpdateName lv old new \<Rightarrow> Some (Rename new)
      | DryRunWouldUpdateStatus lv old new \<Rightarrow> Some (Restatus new)
      | _ \<Rightarrow> None)"

definition performed :: "call \<Rightarrow> action option" where
  "performed c =
     (case c of
        CreateFolder sp n \<Rightarrow> Some (MakeFolder n)
      | CreateList f n \<Rightarrow> Some (MakeList n)
      | CreateTask l d \<Rightarrow> Some (MakeItem (new_name d))
      | UpdateTask i d \<Rightarrow>
          (case upd_name d of
             Some n \<Rightarrow> Some (Rename n)
           | None \<Rightarrow> (case upd_status d of Some st \<Rightarrow> Some (Restatus st) | None \<Rightarrow> None)))"

text \<open>The actions announced, and the actions performed, between two worlds of one run.\<close>

definition announcedBy :: "world \<Rightarrow> world \<Rightarrow> action list" where
  "announcedBy w w' = List.map_filter announced (drop (length (out w)) (out w'))"

definition performedBy :: "world \<Rightarrow> world \<Rightarrow> action list" where
  "performedBy w w' = List.map_filter performed (issued w w')"

text \<open>
  What a run of \<open>syncFeature\<close> and of \<open>syncEpic\<close> lists as task and feature directories,
  as \<^const>\<open>subtaskDirsOf\<close> does for \<open>syncTask\<close>.
\<close>

definition taskDirsOf :: "string \<Rightarrow> world \<Rightarrow> string list" where
  "taskDirsOf featureId v =
     (case parseSpecId featureId of
        None \<Rightarrow> []
      | Some parts \<Rightarrow>
          (case feature parts of
             None \<Rightarrow> []
           | Some f \<Rightarrow>
               (case dirs v [epic parts, f] of
                  None \<Rightarrow> []
                | Some entries \<Rightarrow> childDirs (CHR ''T'') featureId entries)))"

definition featureDirsOf :: "string \<Rightarrow> world \<Rightarrow> string list" where
  "featureDirsOf epicId v =
     (case dirs v [epicId] of None \<Rightarrow> [] | Some entries \<Rightarrow> childDirs (CHR ''F'') epicId entries)"

text \<open>No directory lists a name twice.\<close>

definition dirsDistinct :: "world \<Rightarrow> bool" where
  "dirsDistinct v = (\<forall>p es. dirs v p = Some es \<longrightarrow> distinct es)"

text \<open>
  The service has what a run visits above the subtasks: the item of the task; the list
  of the feature and the items of the tasks in its directories; the folder of the epic
  and, for the features in its directories, their lists and the items of their tasks.
  Nothing is asked of an identifier that has no loaded document, which the run skips.
\<close>

definition taskPresent :: "string \<Rightarrow> (string \<rightharpoonup> SpecData) \<Rightarrow> world \<Rightarrow> string \<Rightarrow> bool" where
  "taskPresent listId allSpecs v taskId =
     (allSpecs taskId \<noteq> None \<longrightarrow> findTaskByCustomId listId taskId v \<noteq> None)"

definition featurePresent :: "string \<Rightarrow> (string \<rightharpoonup> SpecData) \<Rightarrow> world \<Rightarrow> string \<Rightarrow> bool" where
  "featurePresent folderId allSpecs v featureId =
     (case allSpecs featureId of
        None \<Rightarrow> True
      | Some d \<Rightarrow>
          (case findList folderId (featureId @ '': '' @ title (metadata d)) v of
             None \<Rightarrow> False
           | Some l \<Rightarrow> list_all (taskPresent (list_id l) allSpecs v) (taskDirsOf featureId v)))"

definition epicPresent :: "string \<Rightarrow> (string \<rightharpoonup> SpecData) \<Rightarrow> world \<Rightarrow> string \<Rightarrow> bool" where
  "epicPresent spaceId allSpecs v epicId =
     (case allSpecs epicId of
        None \<Rightarrow> True
      | Some d \<Rightarrow>
          (case findFolder spaceId (epicId @ '' - '' @ title (metadata d)) v of
             None \<Rightarrow> False
           | Some f \<Rightarrow>
               list_all (featurePresent (folder_id f) allSpecs v) (featureDirsOf epicId v)))"

section \<open>Notions used in the proofs about dry runs\<close>

text \<open>
  The actions of a run, read off the world before the run: the update of the name and
  of the status of an item that exists, the creation of an item that is absent, and for
  a task, a feature and an epic the actions of the children in the order of the
  directories. At a task, a list or a folder that is absent the plan is the creation
  alone, which is what a dry run announces there.
\<close>

definition renamePlan :: "ClickUpTask \<Rightarrow> string \<Rightarrow> action list" where
  "renamePlan e nm = (if task_name e \<noteq> nm then [Rename nm] else [])"

definition restatusPlan :: "ClickUpTask \<Rightarrow> string \<Rightarrow> action list" where
  "restatusPlan e st =
     (if task_status e \<noteq> st \<and> \<not> isStatusDowngrade (task_status e) st then [Restatus st] else [])"

definition itemPlan :: "string \<Rightarrow> string \<Rightarrow> (string \<rightharpoonup> SpecData) \<Rightarrow> world \<Rightarrow> action list" where
  "itemPlan listId specId allSpecs v =
     (case allSpecs specId of
        None \<Rightarrow> []
      | Some d \<Rightarrow>
          (case findSubtaskByCustomId listId specId v of
             None \<Rightarrow> [MakeItem (specId @ '': '' @ title (metadata d))]
           | Some e \<Rightarrow> renamePlan e (specId @ '': '' @ title (metadata d))
                       @ restatusPlan e (mapStatusToClickUp (status (metadata d)))))"

definition taskPlan :: "string \<Rightarrow> string \<Rightarrow> (string \<rightharpoonup> SpecData) \<Rightarrow> world \<Rightarrow> action list" where
  "taskPlan listId taskId allSpecs v =
     (case allSpecs taskId of
        None \<Rightarrow> []
      | Some d \<Rightarrow>
          (case findTaskByCustomId listId taskId v of
             None \<Rightarrow> [MakeItem (taskId @ '': '' @ title (metadata d))]
           | Some e \<Rightarrow>
               renamePlan e (taskId @ '': '' @ title (metadata d))
               @ concat (map (\<lambda>s. itemPlan listId s allSpecs v) (subtaskDirsOf taskId v))
               @ restatusPlan e (targetStatus allSpecs (metadata d) (subtaskDirsOf taskId v))))"

definition featurePlan :: "string \<Rightarrow> string \<Rightarrow> (string \<rightharpoonup> SpecData) \<Rightarrow> world \<Rightarrow> action list" where
  "featurePlan folderId featureId allSpecs v =
     (case allSpecs featureId of
        None \<Rightarrow> []
      | Some d \<Rightarrow>
          (case findList folderId (featureId @ '': '' @ title (metadata d)) v of
             None \<Rightarrow> [MakeList (featureId @ '': '' @ title (metadata d))]
           | Some l \<Rightarrow>
               concat (map (\<lambda>x. taskPlan (list_id l) x allSpecs v) (taskDirsOf featureId v))))"

definition epicPlan :: "string \<Rightarrow> string \<Rightarrow> (string \<rightharpoonup> SpecData) \<Rightarrow> world \<Rightarrow> action list" where
  "epicPlan spaceId epicId allSpecs v =
     (case allSpecs epicId of
        None \<Rightarrow> []
      | Some d \<Rightarrow>
          (case findFolder spaceId (epicId @ '' - '' @ title (metadata d)) v of
             None \<Rightarrow> [MakeFolder (epicId @ '' - '' @ title (metadata d))]
           | Some f \<Rightarrow>
               concat (map (\<lambda>x. featurePlan (folder_id f) x allSpecs v) (featureDirsOf epicId v))))"

text \<open>
  \<open>announces v v' as\<close>: the lines printed from \<open>v\<close> to \<open>v'\<close> announce the actions \<open>as\<close>;
  \<open>performs v v' as\<close>: the calls issued from \<open>v\<close> to \<open>v'\<close> perform them. \<open>quiet v u\<close>:
  from \<open>v\<close> to \<open>u\<close> only lines that announce nothing were printed.
\<close>

definition announces :: "world \<Rightarrow> world \<Rightarrow> action list \<Rightarrow> bool" where
  "announces v v' as = (\<exists>ls. out v' = out v @ ls \<and> List.map_filter announced ls = as)"

definition performs :: "world \<Rightarrow> world \<Rightarrow> action list \<Rightarrow> bool" where
  "performs v v' as = (\<exists>cs. calls v' = calls v @ cs \<and> List.map_filter performed cs = as)"

definition quiet :: "world \<Rightarrow> world \<Rightarrow> bool" where
  "quiet v u = (onlyOutput v u \<and> announces v u [])"

text \<open>
  The part of the service that a live step leaves alone. A step that works on the items
  whose names start with one of the prefixes \<open>ps\<close> keeps every other item as it is,
  keeps the lists, the folders and the directories, and keeps identifiers unique.
  \<open>owned i ps\<close>: every item with the identifier \<open>i\<close> has such a name. \<open>covers ps qs\<close>:
  every prefix of \<open>qs\<close> extends one of \<open>ps\<close>. Two prefixes are \<open>comparable\<close> when one
  extends the other, which is when one string can start with both.
\<close>

definition comparable :: "string \<Rightarrow> string \<Rightarrow> bool" where
  "comparable a b = (startsWith a b \<or> startsWith b a)"

definition touched :: "string list \<Rightarrow> ClickUpTask \<Rightarrow> bool" where
  "touched ps t = list_ex (startsWith (task_name t)) ps"

definition untouched :: "string list \<Rightarrow> world \<Rightarrow> ClickUpTask list" where
  "untouched ps v = filter (\<lambda>t. \<not> touched ps t) (tasks v)"

definition keeps :: "string list \<Rightarrow> world \<Rightarrow> world \<Rightarrow> bool" where
  "keeps ps v v' =
     (uniqueIds v' \<and> dirs v' = dirs v \<and> lists v' = lists v \<and> folders v' = folders v
      \<and> untouched ps v' = untouched ps v)"

definition owned :: "string \<Rightarrow> string list \<Rightarrow> world \<Rightarrow> bool" where
  "owned i ps v = list_all (\<lambda>t. task_id t = i \<longrightarrow> touched ps t) (tasks v)"

definition covers :: "string list \<Rightarrow> string list \<Rightarrow> bool" where
  "covers ps qs = list_all (\<lambda>q. list_ex (startsWith q) ps) qs"

text \<open>
  \<open>under X Y\<close>: the identifier \<open>Y\<close> is \<open>X\<close> or lies below it. \<open>plain n\<close>: a directory name
  without a colon or a hyphen, as every segment is.
\<close>

definition under :: "string \<Rightarrow> string \<Rightarrow> bool" where
  "under X Y = (Y = X \<or> startsWith Y (X @ ''-''))"

definition plain :: "string \<Rightarrow> bool" where
  "plain n = list_all (\<lambda>c. c \<noteq> CHR '':'' \<and> c \<noteq> CHR ''-'') n"

section \<open>Scenarios\<close>

text \<open>
  The epic \<open>E02\<close> with the feature \<open>E02-F01\<close>, its task \<open>E02-F01-T01\<close> in progress and the
  two subtasks \<open>S01\<close> and \<open>S02\<close> complete, on disk, and a space \<open>space\<close> of the service
  that holds nothing yet.
\<close>

definition specDoc :: "string \<Rightarrow> string \<Rightarrow> SpecData" where
  "specDoc t s =
     \<lparr> metadata = \<lparr> clickup_task_id = None, title = t, status = s, priority = ''medium'',
                    tags = [] \<rparr>,
       markdownContent = ''Body'' \<rparr>"

definition scenarioSpecs ::
  "string \<Rightarrow> string \<Rightarrow> string \<Rightarrow> string \<Rightarrow> string \<Rightarrow> (string \<rightharpoonup> SpecData)" where
  "scenarioSpecs epicTitle featureTitle taskTitle firstTitle secondTitle =
     [''E02'' \<mapsto> specDoc epicTitle ''in_progress'',
      ''E02-F01'' \<mapsto> specDoc featureTitle ''in_progress'',
      ''E02-F01-T01'' \<mapsto> specDoc taskTitle ''in_progress'',
      ''E02-F01-T01-S01'' \<mapsto> specDoc firstTitle ''complete'',
      ''E02-F01-T01-S02'' \<mapsto> specDoc secondTitle ''complete'']"

definition exampleSpecs :: "string \<rightharpoonup> SpecData" where
  "exampleSpecs = scenarioSpecs ''Data Layer'' ''Storage'' ''Schema'' ''Tables'' ''Indexes''"

definition header :: "string \<Rightarrow> string" where
  "header specId = ''---'' @ [NL] @ ''id: '' @ specId @ [NL] @ ''status: draft'' @ [NL] @ ''---''"

definition scenarioFiles :: files where
  "scenarioFiles =
     [[''E02'', ''F01'', ''T01'', ''E02-F01-T01.spec.md''] \<mapsto> header ''E02-F01-T01'',
      [''E02'', ''F01'', ''T01'', ''S01'', ''E02-F01-T01-S01.spec.md''] \<mapsto> header ''E02-F01-T01-S01'',
      [''E02'', ''F01'', ''T01'', ''S02'', ''E02-F01-T01-S02.spec.md''] \<mapsto> header ''E02-F01-T01-S02'']"

text \<open>
  A document of the epic \<open>E01\<close> whose header has a comment line that shows the field
  with a blank value, and a file at the place of that document that has no \<open>id:\<close>
  line.
\<close>

definition commentedFiles :: files where
  "commentedFiles =
     [[''E01'', ''E01.spec.md''] \<mapsto>
        ''---'' @ [NL]
        @ ''# clickup_task_id: '' @ [QUOTE] @ '' '' @ [QUOTE] @ '' until the first sync'' @ [NL]
        @ ''id: E01'' @ [NL]
        @ ''---'']"

definition headlessFiles :: files where
  "headlessFiles = [[''E01'', ''E01.spec.md''] \<mapsto> ''# Epic'' @ [NL] @ ''identifier: E01'']"

definition scenarioDirs :: "string list \<rightharpoonup> string list" where
  "scenarioDirs =
     [[''E02''] \<mapsto> [''F01''],
      [''E02'', ''F01''] \<mapsto> [''T01''],
      [''E02'', ''F01'', ''T01''] \<mapsto> [''S02'', ''S01''],
      [''E02'', ''F01'', ''T01'', ''S01''] \<mapsto> [],
      [''E02'', ''F01'', ''T01'', ''S02''] \<mapsto> []]"

definition scenarioWorld :: world where
  "scenarioWorld =
     \<lparr> folders = [], lists = [], tasks = [],
       idSupply = [''f1'', ''l1'', ''t1'', ''s1'', ''s2''],
       files = scenarioFiles, dirs = scenarioDirs, calls = [], out = [] \<rparr>"

text \<open>The world that the first live run leaves, with an empty record of calls.\<close>

definition afterFirstRun :: "string \<Rightarrow> string \<Rightarrow> string \<Rightarrow> string \<Rightarrow> string \<Rightarrow> world" where
  "afterFirstRun epicTitle featureTitle taskTitle firstTitle secondTitle =
     (worldOf (syncEpic ''space'' ''E02''
                 (scenarioSpecs epicTitle featureTitle taskTitle firstTitle secondTitle)
                 False scenarioWorld))
       \<lparr> calls := [], out := [] \<rparr>"

definition exampleAfterFirstRun :: world where
  "exampleAfterFirstRun = afterFirstRun ''Data Layer'' ''Storage'' ''Schema'' ''Tables'' ''Indexes''"

text \<open>
  A task and its subtask that are \<open>COMPLETE\<close> in the service while their documents
  still say \<open>planned\<close> and \<open>in_progress\<close>.
\<close>

definition staleSpecs :: "string \<rightharpoonup> SpecData" where
  "staleSpecs =
     [''E02-F01-T01'' \<mapsto> specDoc ''Schema'' ''planned'',
      ''E02-F01-T01-S01'' \<mapsto> specDoc ''Tables'' ''in_progress'']"

definition remoteItem :: "string \<Rightarrow> string \<Rightarrow> string \<Rightarrow> ClickUpTask" where
  "remoteItem i n s =
     \<lparr> task_id = i, task_name = n, task_description = [], task_status = s, task_priority = 3,
       task_tags = [], task_parent = None, task_list = ''l1'' \<rparr>"

definition completedWorld :: world where
  "completedWorld =
     \<lparr> folders = [], lists = [],
       tasks = [remoteItem ''t1'' ''E02-F01-T01: Schema'' ''COMPLETE'',
                remoteItem ''s1'' ''E02-F01-T01-S01: Tables'' ''COMPLETE''],
       idSupply = [''n1'', ''n2''],
       files = Map.empty, dirs = scenarioDirs, calls = [], out = [] \<rparr>"

text \<open>
  A service that has the folder, the list, the task under an older name and the first
  subtask, but not the second subtask.
\<close>

definition syncedWorld :: world where
  "syncedWorld =
     \<lparr> folders = [\<lparr> folder_id = ''f1'', folder_name = ''E02 - Data Layer'',
                    folder_space = ''space'' \<rparr>],
       lists = [\<lparr> list_id = ''l1'', list_name = ''E02-F01: Storage'', list_folder = ''f1'' \<rparr>],
       tasks = [remoteItem ''t1'' ''E02-F01-T01: Schemas'' ''IN PROGRESS'',
                remoteItem ''s1'' ''E02-F01-T01-S01: Tables'' ''COMPLETE''],
       idSupply = [''n1''],
       files = scenarioFiles, dirs = scenarioDirs, calls = [], out = [] \<rparr>"

section \<open>The status order\<close>

text \<open>
  C8. \<open>isStatusDowngrade\<close> is false as soon as one of its arguments is \<open>CANCELLED\<close>, so
  it is false from \<open>COMPLETE\<close> to \<open>CANCELLED\<close> and from \<open>CANCELLED\<close> to \<open>DRAFT\<close>. The
  seven other statuses have the ordinals 1 to 7 in the order \<open>DRAFT\<close>, \<open>PLANNED\<close>,
  \<open>BLOCKED\<close>, \<open>IN PROGRESS\<close>, \<open>REVIEW\<close>, \<open>TESTING\<close>, \<open>COMPLETE\<close>, and between two of
  them \<open>isStatusDowngrade\<close> is true exactly when the ordinal of the current status is
  greater than the ordinal of the next one.
\<close>

theorem isStatusDowngrade_follows_ordinals:
  "(current = ''CANCELLED'' \<or> next = ''CANCELLED'' \<longrightarrow> \<not> isStatusDowngrade current next)
   \<and> \<not> isStatusDowngrade ''COMPLETE'' ''CANCELLED''
   \<and> \<not> isStatusDowngrade ''CANCELLED'' ''DRAFT''
   \<and> (\<forall>i<7. getStatusPriority (orderedStatuses ! i) = Number (i + 1))
   \<and> (\<forall>i<7. \<forall>j<7.
         isStatusDowngrade (orderedStatuses ! i) (orderedStatuses ! j) = (i + 1 > j + 1))"
  by (simp add: isStatusDowngrade_def getStatusPriority_def statusPriority_def greater_def
      orderedStatuses_def numeral_eq_Suc All_less_Suc)

theorem isStatusDowngrade_follows_ordinals_witness:
  "\<not> isStatusDowngrade ''REVIEW'' ''CANCELLED''
   \<and> getStatusPriority (orderedStatuses ! 3) = Number 4
   \<and> isStatusDowngrade (orderedStatuses ! 6) (orderedStatuses ! 1)
   \<and> \<not> isStatusDowngrade (orderedStatuses ! 1) (orderedStatuses ! 6)"
  using isStatusDowngrade_follows_ordinals [of "''REVIEW''" "''CANCELLED''"]
  by simp

lemma other_status_has_priority_zero:
  assumes "current \<notin> {''DRAFT'', ''PLANNED'', ''BLOCKED'', ''IN PROGRESS'', ''REVIEW'', ''TESTING'',
                      ''COMPLETE'', ''CANCELLED''}"
    and "current \<notin> set objectPrototypeMembers"
  shows "getStatusPriority current = Number 0" and "\<not> isStatusDowngrade current next"
proof -
  show p: "getStatusPriority current = Number 0"
    using assms by (simp add: getStatusPriority_def statusPriority_def)
  show "\<not> isStatusDowngrade current next"
    by (cases "getStatusPriority next") (simp_all add: isStatusDowngrade_def p greater_def)
qed

lemma letter_case_of_complete:
  assumes "toLowerCase current = toLowerCase ''COMPLETE''" and "current \<noteq> ''COMPLETE''"
  shows "getStatusPriority current = Number 0" and "\<not> isStatusDowngrade current next"
proof -
  have keys: "current \<notin> {''DRAFT'', ''PLANNED'', ''BLOCKED'', ''IN PROGRESS'', ''REVIEW'', ''TESTING'',
                 ''COMPLETE'', ''CANCELLED''}"
    using assms by (auto simp add: toLowerCase_def)
  have members: "current \<notin> set objectPrototypeMembers"
    using assms(1) by (auto simp add: toLowerCase_def objectPrototypeMembers_def)
  show "getStatusPriority current = Number 0" and "\<not> isStatusDowngrade current next"
    using other_status_has_priority_zero [OF keys members] by simp_all
qed

text \<open>
  C10. The claim gives every status string outside the eight keys the priority 0, so that
  \<open>isStatusDowngrade\<close> is false whenever the current status is such a string. The code
  means this by \<open>?? 0\<close> and misses the names that the table inherits from
  \<open>Object.prototype\<close>: for the status \<open>constructor\<close>, which is none of the eight keys,
  \<open>getStatusPriority\<close> returns the function \<open>Object\<close> and not 0, and with the current
  status \<open>toString\<close> and the next status \<open>constructor\<close> the comparison of the two
  functions makes \<open>isStatusDowngrade\<close> true. A current status that differs from
  \<open>COMPLETE\<close> in letter case only does have the priority 0 and is never a downgrade.
\<close>

theorem member_name_status_is_not_priority_zero:
  "''constructor'' \<notin> {''DRAFT'', ''PLANNED'', ''BLOCKED'', ''IN PROGRESS'', ''REVIEW'', ''TESTING'',
                       ''COMPLETE'', ''CANCELLED''}
   \<and> getStatusPriority ''constructor'' = Member ''constructor''
   \<and> getStatusPriority ''constructor'' \<noteq> Number 0
   \<and> getStatusPriority ''CANCELLED'' = Number 0
   \<and> ''toString'' \<notin> {''DRAFT'', ''PLANNED'', ''BLOCKED'', ''IN PROGRESS'', ''REVIEW'', ''TESTING'',
                       ''COMPLETE'', ''CANCELLED''}
   \<and> isStatusDowngrade ''toString'' ''constructor''
   \<and> getStatusPriority ''Complete'' = Number 0
   \<and> \<not> isStatusDowngrade ''Complete'' ''PLANNED''"
  by (simp add: isStatusDowngrade_def getStatusPriority_def statusPriority_def greater_def
      objectPrototypeMembers_def memberText_def)

section \<open>Facts about the engine\<close>


lemma find_Some_D: "find P xs = Some x \<Longrightarrow> x \<in> set xs \<and> P x"
  by (induction xs) (auto split: if_splits)

lemma worldOf_await:
  "worldOf (await r k) = (case r of Exn w \<Rightarrow> w | Ret x w \<Rightarrow> worldOf (k x w))"
  by (cases r) (simp_all add: await_def)

lemma forEach_invariant:
  assumes "J w" and "\<And>x v. x \<in> set xs \<Longrightarrow> J v \<Longrightarrow> J (worldOf (f x v))"
  shows "J (worldOf (forEach f xs w))"
  using assms
proof (induction xs arbitrary: w)
  case Nil
  then show ?case by simp
next
  case (Cons x xs)
  have step: "J (worldOf (f x w))" using Cons.prems by simp
  show ?case
  proof (cases "f x w")
    case (Ret u v)
    then have "J v" using step by simp
    then have "J (worldOf (forEach f xs v))"
      using Cons.IH Cons.prems(2) by simp
    then show ?thesis using Ret by (simp add: await_def)
  next
    case (Exn v)
    then show ?thesis using step by (simp add: await_def)
  qed
qed

lemma keepsComplete_say [simp]: "keepsComplete i taskId before (say l w) = keepsComplete i taskId before w"
  by (simp add: keepsComplete_def say_def uniqueIds_def)

lemma keepsComplete_writeBack [simp]:
  "keepsComplete i taskId before (writeBack s t w) = keepsComplete i taskId before w"
  by (simp add: keepsComplete_def writeBack_def say_def uniqueIds_def split: prod.splits)

lemma calls_updateTask [simp]: "calls (worldOf (updateTask j d w)) = calls w @ [UpdateTask j d]"
  by (simp add: updateTask_def issue_def)

lemma idSupply_updateTask [simp]: "idSupply (worldOf (updateTask j d w)) = idSupply w"
  by (simp add: updateTask_def issue_def)

lemma task_id_applyUpdate [simp]: "task_id (applyUpdate d t) = task_id t"
  by (simp add: applyUpdate_def)

lemma ids_updateTask [simp]: "map task_id (tasks (worldOf (updateTask j d w))) = map task_id (tasks w)"
  by (simp add: updateTask_def issue_def comp_def if_distrib [of task_id] cong: if_cong)

lemma tasks_updateTask:
  "set (tasks (worldOf (updateTask j d w))) \<subseteq> set (tasks w) \<union> {applyUpdate d t | t. t \<in> set (tasks w) \<and> task_id t = j}"
  by (auto simp: updateTask_def issue_def)

lemma keepsComplete_updateTask:
  assumes "keepsComplete i taskId before w"
    and "j = i \<longrightarrow> upd_status d = None \<and> (case upd_name d of None \<Rightarrow> True | Some n \<Rightarrow> startsWith n (taskId @ '':''))"
  shows "keepsComplete i taskId before (worldOf (updateTask j d w))"
proof -
  let ?w = "worldOf (updateTask j d w)"
  obtain cs where cs: "calls w = before @ cs" "\<not> list_ex (statusUpdateFor i) cs"
    using assms(1) by (auto simp: keepsComplete_def)
  have nocall: "\<not> statusUpdateFor i (UpdateTask j d)"
    using assms(2) by (auto simp: statusUpdateFor_def)
  have c1: "uniqueIds ?w"
    using assms(1) by (simp add: keepsComplete_def uniqueIds_def)
  have "list_ex (\<lambda>t. task_id t = i) (tasks w)"
    using assms(1) by (simp add: keepsComplete_def)
  then have "i \<in> task_id ` set (tasks w)"
    by (auto simp: list_ex_iff)
  moreover have "task_id ` set (tasks ?w) = task_id ` set (tasks w)"
    by (simp only: set_map [symmetric] ids_updateTask)
  ultimately have "i \<in> task_id ` set (tasks ?w)"
    by simp
  then have c2: "list_ex (\<lambda>t. task_id t = i) (tasks ?w)"
    by (auto simp: list_ex_iff)
  have old: "\<And>t. t \<in> set (tasks w) \<Longrightarrow> task_id t = i \<Longrightarrow> task_status t = ''COMPLETE'' \<and> startsWith (task_name t) (taskId @ '':'')"
    using assms(1) by (auto simp: keepsComplete_def list_all_iff)
  have c3: "list_all (\<lambda>t. task_id t = i \<longrightarrow>
                        task_status t = ''COMPLETE'' \<and> startsWith (task_name t) (taskId @ '':''))
          (tasks ?w)"
    unfolding list_all_iff
  proof (intro ballI impI)
    fix t assume t: "t \<in> set (tasks ?w)" and ti: "task_id t = i"
    from t tasks_updateTask [of j d w]
    consider "t \<in> set (tasks w)" | u where "u \<in> set (tasks w)" "task_id u = j" "t = applyUpdate d u"
      by auto
    then show "task_status t = ''COMPLETE'' \<and> startsWith (task_name t) (taskId @ '':'')"
    proof cases
      case 1
      then show ?thesis using old ti by simp
    next
      case 2
      then have ji: "j = i" using ti by simp
      have "task_status u = ''COMPLETE'' \<and> startsWith (task_name u) (taskId @ '':'')"
        using old 2 ji by simp
      then show ?thesis
        using assms(2) ji 2(3) by (auto simp: applyUpdate_def split: option.splits)
    qed
  qed
  have c4: "\<exists>cs'. calls ?w = before @ cs' \<and> \<not> list_ex (statusUpdateFor i) cs'"
    using cs nocall by (intro exI [of _ "cs @ [UpdateTask j d]"]) simp
  show ?thesis
    unfolding keepsComplete_def using c1 c2 c3 c4 by blast
qed


lemma keepsComplete_createTask:
  assumes "keepsComplete i taskId before w"
  shows "keepsComplete i taskId before (worldOf (createTask listId data w))"
    and "createTask listId data w = Ret t v \<Longrightarrow> task_id t \<noteq> i"
proof -
  obtain cs where cs: "calls w = before @ cs" "\<not> list_ex (statusUpdateFor i) cs"
    using assms by (auto simp: keepsComplete_def)
  have nocall: "\<not> statusUpdateFor i (CreateTask listId data)"
    by (simp add: statusUpdateFor_def)
  have mem: "i \<in> task_id ` set (tasks w)"
    using assms by (auto simp: keepsComplete_def list_ex_iff)
  have dist: "distinct (map task_id (tasks w) @ idSupply w)"
    using assms by (simp add: keepsComplete_def uniqueIds_def)
  have old: "list_all (\<lambda>t. task_id t = i \<longrightarrow>
                        task_status t = ''COMPLETE'' \<and> startsWith (task_name t) (taskId @ '':''))
          (tasks w)"
    using assms by (simp add: keepsComplete_def)
  show "keepsComplete i taskId before (worldOf (createTask listId data w))"
  proof (cases "idSupply w")
    case Nil
    have "\<exists>cs'. calls w @ [CreateTask listId data] = before @ cs' \<and> \<not> list_ex (statusUpdateFor i) cs'"
      using cs nocall by (intro exI [of _ "cs @ [CreateTask listId data]"]) simp
    then show ?thesis
      using Nil assms by (simp add: createTask_def issue_def keepsComplete_def uniqueIds_def)
  next
    case (Cons a rest)
    have ai: "a \<noteq> i" using dist mem Cons by auto
    have "\<exists>cs'. calls w @ [CreateTask listId data] = before @ cs' \<and> \<not> list_ex (statusUpdateFor i) cs'"
      using cs nocall by (intro exI [of _ "cs @ [CreateTask listId data]"]) simp
    moreover have "distinct (map task_id (tasks w) @ a # rest)"
      using dist Cons by simp
    ultimately show ?thesis
      using Cons assms ai old
      by (simp add: createTask_def issue_def keepsComplete_def uniqueIds_def Let_def)
  qed
  show "createTask listId data w = Ret t v \<Longrightarrow> task_id t \<noteq> i"
    using dist mem by (auto simp: createTask_def Let_def split: list.splits)
qed

lemma await_invariant:
  assumes "J (worldOf r)" and "\<And>x v. r = Ret x v \<Longrightarrow> J v \<Longrightarrow> J (worldOf (k x v))"
  shows "J (worldOf (await r k))"
  using assms by (cases r) (simp_all add: await_def)

lemma keepsComplete_reconcileName:
  assumes "keepsComplete i taskId before w"
    and "task_id e = i \<longrightarrow> startsWith nm (taskId @ '':'')"
  shows "keepsComplete i taskId before (worldOf (reconcileName lv e nm dryRun w))"
proof -
  have upd: "keepsComplete i taskId before (worldOf (updateTask (task_id e) (setName nm) v))"
    if "keepsComplete i taskId before v" for v
    using that assms(2) by (intro keepsComplete_updateTask) (simp_all add: setName_def)
  show ?thesis
  proof (cases "task_name e \<noteq> nm \<and> \<not> dryRun")
    case True
    have "keepsComplete i taskId before
            (worldOf (await (updateTask (task_id e) (setName nm)
                               (say (UpdatingName lv (task_name e) nm) w))
                        (\<lambda>_ w'. Ret () (say (NameUpdated lv) w'))))"
      by (rule await_invariant) (simp_all add: upd assms(1))
    then show ?thesis using True by (simp add: reconcileName_def)
  next
    case False
    then show ?thesis using assms(1) by (auto simp: reconcileName_def)
  qed
qed

lemma keepsComplete_reconcileStatus_other:
  assumes "keepsComplete i taskId before w"
    and "task_id e \<noteq> i"
  shows "keepsComplete i taskId before (worldOf (reconcileStatus lv e st dryRun w))"
proof -
  have upd: "keepsComplete i taskId before (worldOf (updateTask (task_id e) (setStatus st) v))"
    if "keepsComplete i taskId before v" for v
    using that assms(2) by (intro keepsComplete_updateTask) (simp_all add: setStatus_def)
  show ?thesis
  proof (cases "task_status e \<noteq> st \<and> \<not> isStatusDowngrade (task_status e) st \<and> \<not> dryRun")
    case True
    have "keepsComplete i taskId before
            (worldOf (await (updateTask (task_id e) (setStatus st)
                               (say (UpdatingStatus lv (task_status e) st) w))
                        (\<lambda>_ w'. Ret () (say (StatusUpdated lv st) w'))))"
      by (rule await_invariant) (simp_all add: upd assms(1))
    then show ?thesis using True by (simp add: reconcileStatus_def)
  next
    case False
    then show ?thesis using assms(1) by (auto simp: reconcileStatus_def Let_def)
  qed
qed

lemma prefix_clash:
  "startsWith s (a @ '':'') \<Longrightarrow> \<not> startsWith s ((a @ ''-'' @ r) @ '':'')"
proof
  assume 1: "startsWith s (a @ '':'')" and 2: "startsWith s ((a @ ''-'' @ r) @ '':'')"
  from 1 have "take (Suc (length a)) s = a @ '':''" by (simp add: startsWith_def)
  moreover from 2 have "take (length a + (length r + 2)) s = a @ ''-'' @ r @ '':''"
    by (simp add: startsWith_def)
  then have "take (Suc (length a)) (take (length a + (length r + 2)) s) = take (Suc (length a)) (a @ ''-'' @ r @ '':'')"
    by simp
  then have "take (Suc (length a)) s = a @ ''-''"
    by (simp add: min_def)
  ultimately show False by simp
qed


lemma keepsComplete_syncSubtask:
  assumes J: "keepsComplete i taskId before w"
  shows "keepsComplete i taskId before
           (worldOf (syncSubtask listId parent (taskId @ ''-'' @ n) allSpecs dryRun w))"
proof (cases "allSpecs (taskId @ ''-'' @ n)")
  case None
  then show ?thesis using J by (simp add: syncSubtask_def)
next
  case (Some d)
  let ?sid = "taskId @ ''-'' @ n"
  show ?thesis
  proof (cases "findSubtaskByCustomId listId ?sid w")
    case None
    show ?thesis
    proof (cases dryRun)
      case True
      then show ?thesis using J Some None by (simp add: syncSubtask_def Let_def)
    next
      case False
      have "keepsComplete i taskId before
              (worldOf (await (createTask listId (taskDataOf ?sid d)
                          (say (CreatingItem Subtask ?sid (title (metadata d))) w))
                 (\<lambda>subtask w1.
                    await (updateTask (task_id subtask) (setParent parent)
                             (say (TimeEstimateLine Subtask) w1))
                      (\<lambda>_ w2. Ret () (writeBack ?sid (task_id subtask)
                                        (say (CreatedItem Subtask (task_id subtask)) w2))))))"
      proof (rule await_invariant)
        show "keepsComplete i taskId before
                (worldOf (createTask listId (taskDataOf ?sid d)
                   (say (CreatingItem Subtask ?sid (title (metadata d))) w)))"
          by (rule keepsComplete_createTask(1)) (simp add: J)
      next
        fix t v
        assume v: "keepsComplete i taskId before v"
        show "keepsComplete i taskId before
                (worldOf (await (updateTask (task_id t) (setParent parent)
                                   (say (TimeEstimateLine Subtask) v))
                   (\<lambda>_ w2. Ret () (writeBack ?sid (task_id t)
                                     (say (CreatedItem Subtask (task_id t)) w2)))))"
        proof (rule await_invariant)
          show "keepsComplete i taskId before
                  (worldOf (updateTask (task_id t) (setParent parent)
                     (say (TimeEstimateLine Subtask) v)))"
            by (rule keepsComplete_updateTask) (simp_all add: v setParent_def)
        qed simp
      qed
      then show ?thesis using Some None False by (simp add: syncSubtask_def Let_def)
    qed
  next
    case (Some e)
    have e: "e \<in> set (tasks w)" "startsWith (task_name e) (?sid @ '':'')"
      using Some by (auto simp: findSubtaskByCustomId_def getTasks_def dest!: find_Some_D)
    have ne: "task_id e \<noteq> i"
    proof
      assume "task_id e = i"
      then have "startsWith (task_name e) (taskId @ '':'')"
        using J e(1) by (auto simp: keepsComplete_def list_all_iff)
      then show False using e(2) prefix_clash by blast
    qed
    have "keepsComplete i taskId before
            (worldOf (await (reconcileName Subtask e (?sid @ '': '' @ title (metadata d)) dryRun
                               (say (ItemExists Subtask ?sid (title (metadata d))) w))
               (\<lambda>_. reconcileStatus Subtask e (mapStatusToClickUp (status (metadata d))) dryRun)))"
    proof (rule await_invariant)
      show "keepsComplete i taskId before
              (worldOf (reconcileName Subtask e (?sid @ '': '' @ title (metadata d)) dryRun
                 (say (ItemExists Subtask ?sid (title (metadata d))) w)))"
        by (rule keepsComplete_reconcileName) (simp_all add: J ne)
    next
      fix v assume "keepsComplete i taskId before v"
      then show "keepsComplete i taskId before
              (worldOf (reconcileStatus Subtask e (mapStatusToClickUp (status (metadata d))) dryRun v))"
        by (rule keepsComplete_reconcileStatus_other) (rule ne)
    qed
    then show ?thesis using \<open>allSpecs ?sid = Some d\<close> Some by (simp add: syncSubtask_def Let_def)
  qed
qed

lemma subtaskDirsOf_form:
  "x \<in> set (subtaskDirsOf taskId w) \<Longrightarrow> \<exists>n. x = taskId @ ''-'' @ n"
  by (auto simp: subtaskDirsOf_def childDirs_def split: option.splits)

lemma six_downgrade:
  "next \<in> {''DRAFT'', ''PLANNED'', ''BLOCKED'', ''IN PROGRESS'', ''REVIEW'', ''TESTING''}
   \<Longrightarrow> isStatusDowngrade ''COMPLETE'' next"
  by (auto simp: isStatusDowngrade_def getStatusPriority_def statusPriority_def greater_def)

lemma keepsComplete_reconcileStatus_complete:
  assumes "keepsComplete i taskId before w" and "task_status e = ''COMPLETE''"
    and "st = ''COMPLETE'' \<or> isStatusDowngrade ''COMPLETE'' st"
  shows "keepsComplete i taskId before (worldOf (reconcileStatus lv e st dryRun w))"
  using assms by (auto simp: reconcileStatus_def Let_def)

lemma filter_unique:
  "distinct (map f xs) \<Longrightarrow> x \<in> set xs \<Longrightarrow> filter (\<lambda>t. f t = f x) xs = [x]"
proof (induction xs)
  case Nil
  then show ?case by simp
next
  case (Cons a xs)
  show ?case
  proof (cases "a = x")
    case True
    have "f x \<notin> f ` set xs" using Cons.prems True by simp
    then have "\<forall>t\<in>set xs. f t \<noteq> f x" by (metis imageI)
    then have "filter (\<lambda>t. f t = f x) xs = []" by (simp add: filter_empty_conv)
    then show ?thesis using True by simp
  next
    case False
    then have "x \<in> set xs" using Cons.prems by simp
    moreover have "f a \<notin> f ` set xs" using Cons.prems by simp
    then have "f a \<noteq> f x" using \<open>x \<in> set xs\<close> by (metis imageI)
    ultimately show ?thesis using Cons by simp
  qed
qed

lemma keepsComplete_syncTask:
  assumes spec: "allSpecs taskId = Some d"
    and found: "findTaskByCustomId listId taskId w = Some item"
    and st: "task_status item = ''COMPLETE''"
    and nx: "mapStatusToClickUp (status (metadata d))
               \<in> {''DRAFT'', ''PLANNED'', ''BLOCKED'', ''IN PROGRESS'', ''REVIEW'', ''TESTING''}"
    and uniq: "uniqueIds w"
  shows "keepsComplete (task_id item) taskId (calls w) (worldOf (syncTask listId taskId allSpecs dryRun w))"
proof -
  let ?i = "task_id item"
  let ?J = "keepsComplete ?i taskId (calls w)"
  have item: "item \<in> set (tasks w)" "startsWith (task_name item) (taskId @ '':'')"
    using found by (auto simp: findTaskByCustomId_def getTasks_def dest!: find_Some_D)
  have dist: "distinct (map task_id (tasks w))"
    using uniq by (simp add: uniqueIds_def)
  have same: "t = item" if "t \<in> set (tasks w)" "task_id t = ?i" for t
    using that item(1) dist by (meson distinct_map inj_onD)
  have J0: "?J w"
    unfolding keepsComplete_def list_all_iff list_ex_iff
    using uniq item st same by auto
  let ?target = "targetStatus allSpecs (metadata d)"
  have target: "?target ds = ''COMPLETE'' \<or> isStatusDowngrade ''COMPLETE'' (?target ds)" for ds
    using six_downgrade [OF nx] by (simp add: targetStatus_def)
  have "?J (worldOf
     (await (reconcileName Task item (taskId @ '': '' @ title (metadata d)) dryRun
               (say (ItemExists Task taskId (title (metadata d))) w))
        (\<lambda>_ w1.
           let subtaskDirs = subtaskDirsOf taskId w1
           in await (forEach (\<lambda>subtaskId. syncSubtask listId ?i subtaskId allSpecs dryRun)
                       subtaskDirs w1)
                (\<lambda>_ w2.
                   reconcileStatus Task item (?target subtaskDirs) dryRun
                     (if promotes allSpecs (metadata d) subtaskDirs
                      then say (PromotingParent (length subtaskDirs)) w2
                      else w2)))))"
  proof (rule await_invariant)
    show "?J (worldOf (reconcileName Task item (taskId @ '': '' @ title (metadata d)) dryRun
                 (say (ItemExists Task taskId (title (metadata d))) w)))"
      by (rule keepsComplete_reconcileName) (simp_all add: J0 startsWith_def)
  next
    fix v assume v: "?J v"
    have loop: "?J (worldOf (forEach (\<lambda>subtaskId. syncSubtask listId ?i subtaskId allSpecs dryRun)
                       (subtaskDirsOf taskId v) v))"
    proof (rule forEach_invariant [where J = ?J])
      show "?J v" by (rule v)
    next
      fix x u assume "x \<in> set (subtaskDirsOf taskId v)" and u: "?J u"
      then obtain n where "x = taskId @ ''-'' @ n"
        using subtaskDirsOf_form by blast
      then show "?J (worldOf (syncSubtask listId ?i x allSpecs dryRun u))"
        using keepsComplete_syncSubtask [OF u] by simp
    qed
    have "?J (worldOf (await (forEach (\<lambda>subtaskId. syncSubtask listId ?i subtaskId allSpecs dryRun)
                       (subtaskDirsOf taskId v) v)
                (\<lambda>_ w2.
                   reconcileStatus Task item (?target (subtaskDirsOf taskId v)) dryRun
                     (if promotes allSpecs (metadata d) (subtaskDirsOf taskId v)
                      then say (PromotingParent (length (subtaskDirsOf taskId v))) w2
                      else w2))))"
    proof (rule await_invariant)
      show "?J (worldOf (forEach (\<lambda>subtaskId. syncSubtask listId ?i subtaskId allSpecs dryRun)
                       (subtaskDirsOf taskId v) v))"
        by (rule loop)
    next
      fix u assume u: "?J u"
      show "?J (worldOf (reconcileStatus Task item (?target (subtaskDirsOf taskId v)) dryRun
                     (if promotes allSpecs (metadata d) (subtaskDirsOf taskId v)
                      then say (PromotingParent (length (subtaskDirsOf taskId v))) u
                      else u)))"
        by (rule keepsComplete_reconcileStatus_complete) (simp_all add: u st target)
    qed
    then show "?J (worldOf (let subtaskDirs = subtaskDirsOf taskId v
           in await (forEach (\<lambda>subtaskId. syncSubtask listId ?i subtaskId allSpecs dryRun)
                       subtaskDirs v)
                (\<lambda>_ w2.
                   reconcileStatus Task item (?target subtaskDirs) dryRun
                     (if promotes allSpecs (metadata d) subtaskDirs
                      then say (PromotingParent (length subtaskDirs)) w2
                      else w2))))"
      by (simp add: Let_def)
  qed
  then show ?thesis
    using spec found by (simp add: syncTask_def Let_def)
qed


lemma keepsComplete_result:
  assumes "keepsComplete i taskId (calls w) w'"
  shows "\<not> list_ex (statusUpdateFor i) (issued w w') \<and> statusesOf i w' = [''COMPLETE'']"
proof -
  obtain cs where cs: "calls w' = calls w @ cs" "\<not> list_ex (statusUpdateFor i) cs"
    using assms by (auto simp: keepsComplete_def)
  then have a: "\<not> list_ex (statusUpdateFor i) (issued w w')"
    by (simp add: issued_def)
  obtain x where x: "x \<in> set (tasks w')" "task_id x = i"
    using assms by (auto simp: keepsComplete_def list_ex_iff)
  have "distinct (map task_id (tasks w'))"
    using assms by (simp add: keepsComplete_def uniqueIds_def)
  then have "filter (\<lambda>t. task_id t = task_id x) (tasks w') = [x]"
    using x(1) by (rule filter_unique)
  moreover have "task_status x = ''COMPLETE''"
    using assms x by (auto simp: keepsComplete_def list_all_iff)
  ultimately have "statusesOf i w' = [''COMPLETE'']"
    using x(2) by (simp add: statusesOf_def)
  then show ?thesis using a by simp
qed

lemma keepsComplete_found:
  assumes found: "find (\<lambda>t. startsWith (task_name t) (sid @ '':'')) (getTasks listId w) = Some e"
    and st: "task_status e = ''COMPLETE''"
    and uniq: "uniqueIds w"
  shows "keepsComplete (task_id e) sid (calls w) w"
proof -
  have e: "e \<in> set (tasks w)" "startsWith (task_name e) (sid @ '':'')"
    using found by (auto simp: getTasks_def dest!: find_Some_D)
  have dist: "distinct (map task_id (tasks w))"
    using uniq by (simp add: uniqueIds_def)
  have same: "t = e" if "t \<in> set (tasks w)" "task_id t = task_id e" for t
    using that e(1) dist by (meson distinct_map inj_onD)
  show ?thesis
    unfolding keepsComplete_def list_all_iff list_ex_iff
    using uniq e st same by auto
qed

lemma keepsComplete_syncSubtask_self:
  assumes spec: "allSpecs sid = Some d"
    and found: "findSubtaskByCustomId listId sid w = Some e"
    and st: "task_status e = ''COMPLETE''"
    and nx: "mapStatusToClickUp (status (metadata d))
               \<in> {''DRAFT'', ''PLANNED'', ''BLOCKED'', ''IN PROGRESS'', ''REVIEW'', ''TESTING''}"
    and uniq: "uniqueIds w"
  shows "keepsComplete (task_id e) sid (calls w) (worldOf (syncSubtask listId parent sid allSpecs dryRun w))"
    and "keepsComplete (task_id e) sid (calls w) (worldOf (syncExtension listId parent sid allSpecs dryRun w))"
proof -
  let ?J = "keepsComplete (task_id e) sid (calls w)"
  have J0: "?J w"
    using found st uniq by (intro keepsComplete_found) (simp_all add: findSubtaskByCustomId_def)
  have body: "?J (worldOf (await (reconcileName lv e (sid @ '': '' @ title (metadata d)) dryRun (say l w))
               (\<lambda>_. reconcileStatus lv e (mapStatusToClickUp (status (metadata d))) dryRun)))" for lv l
  proof (rule await_invariant)
    show "?J (worldOf (reconcileName lv e (sid @ '': '' @ title (metadata d)) dryRun (say l w)))"
      by (rule keepsComplete_reconcileName) (simp_all add: J0 startsWith_def)
  next
    fix v assume "?J v"
    then show "?J (worldOf (reconcileStatus lv e (mapStatusToClickUp (status (metadata d))) dryRun v))"
      by (rule keepsComplete_reconcileStatus_complete) (simp_all add: st six_downgrade [OF nx])
  qed
  show "?J (worldOf (syncSubtask listId parent sid allSpecs dryRun w))"
    using body spec found by (simp add: syncSubtask_def Let_def)
  show "?J (worldOf (syncExtension listId parent sid allSpecs dryRun w))"
    using body spec found by (simp add: syncExtension_def Let_def)
qed

section \<open>The downgrade guard in the engine\<close>

text \<open>
  C1. Let an item exist in the service with the status \<open>COMPLETE\<close>, and let the status of
  its document map to one of \<open>DRAFT\<close>, \<open>PLANNED\<close>, \<open>BLOCKED\<close>, \<open>IN PROGRESS\<close>, \<open>REVIEW\<close>,
  \<open>TESTING\<close>. Then \<open>isStatusDowngrade\<close> from \<open>COMPLETE\<close> to that status is true, and a run
  of \<open>syncTask\<close>, \<open>syncSubtask\<close> or \<open>syncExtension\<close> that finds the item issues no call
  that sets the status of the item, in a dry run as in a live run, whether the run
  returns or throws; the service still holds \<open>COMPLETE\<close> for it afterwards. The
  identifiers of the service are taken to be unique.
\<close>

theorem complete_items_are_not_downgraded:
  assumes "next \<in> {''DRAFT'', ''PLANNED'', ''BLOCKED'', ''IN PROGRESS'', ''REVIEW'', ''TESTING''}"
    and "allSpecs specId = Some d"
    and "mapStatusToClickUp (status (metadata d)) = next"
    and "task_status existing = ''COMPLETE''"
    and "uniqueIds w"
  shows "isStatusDowngrade ''COMPLETE'' next
    \<and> (findTaskByCustomId listId specId w = Some existing \<longrightarrow>
         (let w' = worldOf (syncTask listId specId allSpecs dryRun w)
          in \<not> list_ex (statusUpdateFor (task_id existing)) (issued w w')
             \<and> statusesOf (task_id existing) w' = [''COMPLETE'']))
    \<and> (findSubtaskByCustomId listId specId w = Some existing \<longrightarrow>
         (let w' = worldOf (syncSubtask listId parent specId allSpecs dryRun w)
          in \<not> list_ex (statusUpdateFor (task_id existing)) (issued w w')
             \<and> statusesOf (task_id existing) w' = [''COMPLETE''])
       \<and> (let w' = worldOf (syncExtension listId parent specId allSpecs dryRun w)
          in \<not> list_ex (statusUpdateFor (task_id existing)) (issued w w')
             \<and> statusesOf (task_id existing) w' = [''COMPLETE'']))"
proof -
  have nx: "mapStatusToClickUp (status (metadata d))
               \<in> {''DRAFT'', ''PLANNED'', ''BLOCKED'', ''IN PROGRESS'', ''REVIEW'', ''TESTING''}"
    using assms(1,3) by simp
  have a: "isStatusDowngrade ''COMPLETE'' next"
    using assms(1) by (rule six_downgrade)
  have b: "\<not> list_ex (statusUpdateFor (task_id existing))
               (issued w (worldOf (syncTask listId specId allSpecs dryRun w)))
           \<and> statusesOf (task_id existing) (worldOf (syncTask listId specId allSpecs dryRun w)) = [''COMPLETE'']"
    if "findTaskByCustomId listId specId w = Some existing"
    by (rule keepsComplete_result, rule keepsComplete_syncTask [where d = d])
       (fact assms(2), fact that, fact assms(4), fact nx, fact assms(5))
  have c: "\<not> list_ex (statusUpdateFor (task_id existing))
               (issued w (worldOf (syncSubtask listId parent specId allSpecs dryRun w)))
           \<and> statusesOf (task_id existing) (worldOf (syncSubtask listId parent specId allSpecs dryRun w)) = [''COMPLETE'']"
    if "findSubtaskByCustomId listId specId w = Some existing"
    by (rule keepsComplete_result, rule keepsComplete_syncSubtask_self(1) [where d = d])
       (fact assms(2), fact that, fact assms(4), fact nx, fact assms(5))
  have d: "\<not> list_ex (statusUpdateFor (task_id existing))
               (issued w (worldOf (syncExtension listId parent specId allSpecs dryRun w)))
           \<and> statusesOf (task_id existing) (worldOf (syncExtension listId parent specId allSpecs dryRun w)) = [''COMPLETE'']"
    if "findSubtaskByCustomId listId specId w = Some existing"
    by (rule keepsComplete_result, rule keepsComplete_syncSubtask_self(2) [where d = d])
       (fact assms(2), fact that, fact assms(4), fact nx, fact assms(5))
  show ?thesis
    using a b c d by (simp add: Let_def)
qed

theorem complete_items_are_not_downgraded_witness:
  "uniqueIds completedWorld
   \<and> findTaskByCustomId ''l1'' ''E02-F01-T01'' completedWorld = Some (remoteItem ''t1'' ''E02-F01-T01: Schema'' ''COMPLETE'')
   \<and> mapStatusToClickUp ''planned'' = ''PLANNED''
   \<and> isStatusDowngrade ''COMPLETE'' ''PLANNED''
   \<and> \<not> list_ex (statusUpdateFor ''t1'')
         (issued completedWorld (worldOf (syncTask ''l1'' ''E02-F01-T01'' staleSpecs False completedWorld)))
   \<and> statusesOf ''t1'' (worldOf (syncTask ''l1'' ''E02-F01-T01'' staleSpecs False completedWorld)) = [''COMPLETE'']"
proof -
  have u: "uniqueIds completedWorld"
    by (simp add: uniqueIds_def completedWorld_def remoteItem_def)
  have f: "findTaskByCustomId ''l1'' ''E02-F01-T01'' completedWorld = Some (remoteItem ''t1'' ''E02-F01-T01: Schema'' ''COMPLETE'')"
    by (simp add: findTaskByCustomId_def getTasks_def completedWorld_def remoteItem_def startsWith_def)
  have s: "staleSpecs ''E02-F01-T01'' = Some (specDoc ''Schema'' ''planned'')"
    by (simp add: staleSpecs_def)
  have m: "mapStatusToClickUp (status (metadata (specDoc ''Schema'' ''planned''))) = ''PLANNED''"
    by (simp add: mapStatusToClickUp_def statusMap_def toLowerCase_def specDoc_def)
  have m': "mapStatusToClickUp ''planned'' = ''PLANNED''"
    by (simp add: mapStatusToClickUp_def statusMap_def toLowerCase_def)
  have t: "task_status (remoteItem ''t1'' ''E02-F01-T01: Schema'' ''COMPLETE'') = ''COMPLETE''"
    by (simp add: remoteItem_def)
  have i: "task_id (remoteItem ''t1'' ''E02-F01-T01: Schema'' ''COMPLETE'') = ''t1''"
    by (simp add: remoteItem_def)
  have p: "''PLANNED'' \<in> {''DRAFT'', ''PLANNED'', ''BLOCKED'', ''IN PROGRESS'', ''REVIEW'', ''TESTING''}"
    by simp
  have "isStatusDowngrade ''COMPLETE'' ''PLANNED''
    \<and> (findTaskByCustomId ''l1'' ''E02-F01-T01'' completedWorld
          = Some (remoteItem ''t1'' ''E02-F01-T01: Schema'' ''COMPLETE'') \<longrightarrow>
         (let w' = worldOf (syncTask ''l1'' ''E02-F01-T01'' staleSpecs False completedWorld)
          in \<not> list_ex (statusUpdateFor (task_id (remoteItem ''t1'' ''E02-F01-T01: Schema'' ''COMPLETE'')))
                 (issued completedWorld w')
             \<and> statusesOf (task_id (remoteItem ''t1'' ''E02-F01-T01: Schema'' ''COMPLETE'')) w'
                 = [''COMPLETE'']))"
    using complete_items_are_not_downgraded [where allSpecs = staleSpecs and specId = "''E02-F01-T01''"
                and d = "specDoc ''Schema'' ''planned''" and w = completedWorld
                and existing = "remoteItem ''t1'' ''E02-F01-T01: Schema'' ''COMPLETE''"
                and listId = "''l1''" and dryRun = False and ?next = "''PLANNED''", OF p s m t u]
    by simp
  then show ?thesis
    using f i u m' by (simp add: Let_def)
qed

section \<open>Lookup of an item by its spec identifier\<close>

text \<open>
  C7. The item that \<open>findTaskByCustomId\<close> or \<open>findSubtaskByCustomId\<close> returns for the
  identifier \<open>X\<close> is an item of the list whose name starts with \<open>X\<close> and a colon. In a list
  that holds the items \<open>T1: Foo\<close> and \<open>T10: Bar\<close>, in either order, the search for \<open>T1\<close>
  returns the item \<open>T1: Foo\<close>.
\<close>

theorem lookup_matches_id_and_colon:
  "(findTaskByCustomId listId X w = Some t \<longrightarrow>
      t \<in> set (tasks w) \<and> task_list t = listId \<and> startsWith (task_name t) (X @ '':''))
   \<and> (findSubtaskByCustomId listId X w = Some t \<longrightarrow>
      t \<in> set (tasks w) \<and> task_list t = listId \<and> startsWith (task_name t) (X @ '':''))
   \<and> (task_name foo = ''T1: Foo'' \<and> task_name bar = ''T10: Bar''
        \<and> task_list foo = listId \<and> task_list bar = listId \<longrightarrow>
        findTaskByCustomId listId ''T1'' (w\<lparr> tasks := [foo, bar] \<rparr>) = Some foo
      \<and> findTaskByCustomId listId ''T1'' (w\<lparr> tasks := [bar, foo] \<rparr>) = Some foo
      \<and> findSubtaskByCustomId listId ''T1'' (w\<lparr> tasks := [foo, bar] \<rparr>) = Some foo
      \<and> findSubtaskByCustomId listId ''T1'' (w\<lparr> tasks := [bar, foo] \<rparr>) = Some foo)"
  by (auto simp: findTaskByCustomId_def findSubtaskByCustomId_def getTasks_def startsWith_def
      dest!: find_Some_D)

theorem lookup_matches_id_and_colon_witness:
  "findTaskByCustomId ''l1'' ''T1''
     (completedWorld\<lparr> tasks := [remoteItem ''b'' ''T10: Bar'' ''DRAFT'',
                                 remoteItem ''a'' ''T1: Foo'' ''DRAFT''] \<rparr>)
     = Some (remoteItem ''a'' ''T1: Foo'' ''DRAFT'')
   \<and> startsWith (task_name (remoteItem ''a'' ''T1: Foo'' ''DRAFT'')) (''T1'' @ '':'')"
  using lookup_matches_id_and_colon
          [where foo = "remoteItem ''a'' ''T1: Foo'' ''DRAFT''"
             and bar = "remoteItem ''b'' ''T10: Bar'' ''DRAFT''"
             and listId = "''l1''" and w = completedWorld
             and t = "remoteItem ''a'' ''T1: Foo'' ''DRAFT''" and X = "''T1''"]
  by (simp add: remoteItem_def startsWith_def)

section \<open>Promotion of a task whose subtasks are complete\<close>

lemma getStatusPriority_le: "getStatusPriority s = Number p \<Longrightarrow> p \<le> 7"
  by (auto simp: getStatusPriority_def statusPriority_def split: if_splits)

lemma mapStatusToClickUp_range:
  "mapStatusToClickUp s \<in> {''DRAFT'', ''PLANNED'', ''BLOCKED'', ''IN PROGRESS'', ''REVIEW'',
                             ''TESTING'', ''COMPLETE'', ''CANCELLED''}"
  by (auto simp: mapStatusToClickUp_def statusMap_def split: option.splits if_splits)

lemma not_downgrade_to_complete: "\<not> isStatusDowngrade cur ''COMPLETE''"
  using getStatusPriority_le [of cur]
  by (cases "getStatusPriority cur")
     (auto simp: isStatusDowngrade_def greater_def getStatusPriority_def statusPriority_def)

lemma dirs_say [simp]: "dirs (say l w) = dirs w"
  by (simp add: say_def)

lemma dirs_updateTask [simp]: "dirs (worldOf (updateTask j d w)) = dirs w"
  by (simp add: updateTask_def issue_def)

lemma dirs_reconcileName [simp]: "dirs (worldOf (reconcileName lv e nm dryRun w)) = dirs w"
  by (cases "updateTask (task_id e) (setName nm) (say (UpdatingName lv (task_name e) nm) w)")
     (use dirs_updateTask [of "task_id e" "setName nm" "say (UpdatingName lv (task_name e) nm) w"]
      in \<open>auto simp: reconcileName_def await_def\<close>)

lemma subtaskDirsOf_cong: "dirs v = dirs w \<Longrightarrow> subtaskDirsOf taskId v = subtaskDirsOf taskId w"
  by (simp add: subtaskDirsOf_def split: option.splits)

lemma returned_await:
  "returned (await r k) \<Longrightarrow> \<exists>x v. r = Ret x v \<and> returned (k x v)"
  by (cases r) (simp_all add: await_def)

lemma allChildrenComplete_iff:
  "allChildrenComplete allSpecs ds =
     (\<forall>s\<in>set ds. \<exists>sd. allSpecs s = Some sd \<and> mapStatusToClickUp (status (metadata sd)) = ''COMPLETE'')"
  by (auto simp: allChildrenComplete_def list_all_iff split: option.splits)

lemma promoted_reconcileStatus:
  assumes "task_status e \<noteq> ''COMPLETE''"
  shows "let r = reconcileStatus lv e ''COMPLETE'' dryRun w
         in if dryRun then r = Ret () (say (DryRunWouldUpdateStatus lv (task_status e) ''COMPLETE'') w)
            else calls (worldOf r) = calls w @ [UpdateTask (task_id e) (setStatus ''COMPLETE'')]"
  using assms not_downgrade_to_complete [of "task_status e"]
  by (cases "updateTask (task_id e) (setStatus ''COMPLETE'') (say (UpdatingStatus lv (task_status e) ''COMPLETE'') w)")
     (auto simp: reconcileStatus_def Let_def await_def updateTask_def issue_def say_def split: if_splits)

text \<open>
  C2. Take a task that exists in the service and has at least one subtask directory.
  When every subtask directory has a loaded document whose mapped status is \<open>COMPLETE\<close>
  and the mapped status of the task is not \<open>COMPLETE\<close>, the target status that the
  engine computes is \<open>COMPLETE\<close>. The target is never anything but the mapped status of
  the task or \<open>COMPLETE\<close>, it stays \<open>COMPLETE\<close> when the mapped status is \<open>COMPLETE\<close>, and
  its ordinal is never below the ordinal of the mapped status. The downgrade guard works
  on this target: when the item is not \<open>COMPLETE\<close> yet, a run of \<open>syncTask\<close> that returns
  ends with the update of its status to \<open>COMPLETE\<close>, announced in a dry run and issued in
  a live run, whatever the status of the task's own document.
\<close>

theorem children_complete_promote_task:
  "(subtaskDirs \<noteq> []
      \<and> (\<forall>s\<in>set subtaskDirs. \<exists>sd. allSpecs s = Some sd
             \<and> mapStatusToClickUp (status (metadata sd)) = ''COMPLETE'')
      \<and> mapStatusToClickUp (status taskSpec) \<noteq> ''COMPLETE''
      \<longrightarrow> targetStatus allSpecs taskSpec subtaskDirs = ''COMPLETE'')
   \<and> (targetStatus allSpecs taskSpec subtaskDirs \<noteq> mapStatusToClickUp (status taskSpec)
      \<longrightarrow> targetStatus allSpecs taskSpec subtaskDirs = ''COMPLETE'')
   \<and> (mapStatusToClickUp (status taskSpec) = ''COMPLETE''
      \<longrightarrow> targetStatus allSpecs taskSpec subtaskDirs = ''COMPLETE'')
   \<and> (\<exists>a b. getStatusPriority (mapStatusToClickUp (status taskSpec)) = Number a
          \<and> getStatusPriority (targetStatus allSpecs taskSpec subtaskDirs) = Number b
          \<and> a \<le> b)
   \<and> (allSpecs taskId = Some taskData
      \<and> findTaskByCustomId listId taskId w = Some existingTask
      \<and> subtaskDirsOf taskId w \<noteq> []
      \<and> (\<forall>s\<in>set (subtaskDirsOf taskId w). \<exists>sd. allSpecs s = Some sd
             \<and> mapStatusToClickUp (status (metadata sd)) = ''COMPLETE'')
      \<and> mapStatusToClickUp (status (metadata taskData)) \<noteq> ''COMPLETE''
      \<and> task_status existingTask \<noteq> ''COMPLETE''
      \<and> returned (syncTask listId taskId allSpecs dryRun w)
      \<longrightarrow> (let w' = worldOf (syncTask listId taskId allSpecs dryRun w)
           in if dryRun
              then last (out w') = DryRunWouldUpdateStatus Task (task_status existingTask) ''COMPLETE''
              else last (calls w') = UpdateTask (task_id existingTask) (setStatus ''COMPLETE'')))"
proof -
  have a: "targetStatus allSpecs taskSpec subtaskDirs = ''COMPLETE''"
    if "subtaskDirs \<noteq> []"
      "\<forall>s\<in>set subtaskDirs. \<exists>sd. allSpecs s = Some sd
             \<and> mapStatusToClickUp (status (metadata sd)) = ''COMPLETE''"
      "mapStatusToClickUp (status taskSpec) \<noteq> ''COMPLETE''"
    using that by (simp add: targetStatus_def promotes_def allChildrenComplete_iff)
  have b: "targetStatus allSpecs taskSpec subtaskDirs = ''COMPLETE''"
    if "targetStatus allSpecs taskSpec subtaskDirs \<noteq> mapStatusToClickUp (status taskSpec)"
    using that by (simp add: targetStatus_def split: if_splits)
  have c: "targetStatus allSpecs taskSpec subtaskDirs = ''COMPLETE''"
    if "mapStatusToClickUp (status taskSpec) = ''COMPLETE''"
    using that by (simp add: targetStatus_def)
  have d: "\<exists>a b. getStatusPriority (mapStatusToClickUp (status taskSpec)) = Number a
          \<and> getStatusPriority (targetStatus allSpecs taskSpec subtaskDirs) = Number b
          \<and> a \<le> b"
    using mapStatusToClickUp_range [of "status taskSpec"]
    by (auto simp: targetStatus_def getStatusPriority_def statusPriority_def)
  have e: "(let w' = worldOf (syncTask listId taskId allSpecs dryRun w)
           in if dryRun
              then last (out w') = DryRunWouldUpdateStatus Task (task_status existingTask) ''COMPLETE''
              else last (calls w') = UpdateTask (task_id existingTask) (setStatus ''COMPLETE''))"
    if spec: "allSpecs taskId = Some taskData"
      and found: "findTaskByCustomId listId taskId w = Some existingTask"
      and ne: "subtaskDirsOf taskId w \<noteq> []"
      and ch: "\<forall>s\<in>set (subtaskDirsOf taskId w). \<exists>sd. allSpecs s = Some sd
             \<and> mapStatusToClickUp (status (metadata sd)) = ''COMPLETE''"
      and own: "mapStatusToClickUp (status (metadata taskData)) \<noteq> ''COMPLETE''"
      and cur: "task_status existingTask \<noteq> ''COMPLETE''"
      and ret: "returned (syncTask listId taskId allSpecs dryRun w)"
  proof -
    let ?A = "reconcileName Task existingTask (taskId @ '': '' @ title (metadata taskData)) dryRun
                (say (ItemExists Task taskId (title (metadata taskData))) w)"
    let ?ds = "subtaskDirsOf taskId w"
    let ?B = "\<lambda>w1. forEach (\<lambda>subtaskId. syncSubtask listId (task_id existingTask) subtaskId
                                      allSpecs dryRun) ?ds w1"
    let ?C = "\<lambda>w2. reconcileStatus Task existingTask ''COMPLETE'' dryRun
                       (say (PromotingParent (length ?ds)) w2)"
    have pr: "promotes allSpecs (metadata taskData) ?ds"
      using ne ch own by (simp add: promotes_def allChildrenComplete_iff)
    have ds: "subtaskDirsOf taskId v = ?ds" if "v = worldOf ?A" for v
      using that by (intro subtaskDirsOf_cong) simp
    have unfold: "syncTask listId taskId allSpecs dryRun w
            = await ?A (\<lambda>_ w1. await (forEach (\<lambda>subtaskId. syncSubtask listId (task_id existingTask) subtaskId
                                      allSpecs dryRun) (subtaskDirsOf taskId w1) w1)
                                  (\<lambda>_ w2. reconcileStatus Task existingTask
                                    (targetStatus allSpecs (metadata taskData) (subtaskDirsOf taskId w1)) dryRun
                                    (if promotes allSpecs (metadata taskData) (subtaskDirsOf taskId w1)
                                     then say (PromotingParent (length (subtaskDirsOf taskId w1))) w2
                                     else w2)))"
      using spec found by (simp add: syncTask_def Let_def)
    have "\<exists>x v. ?A = Ret x v \<and>
         returned (await (forEach (\<lambda>subtaskId. syncSubtask listId (task_id existingTask) subtaskId
                                      allSpecs dryRun) (subtaskDirsOf taskId v) v)
                                  (\<lambda>_ w2. reconcileStatus Task existingTask
                                    (targetStatus allSpecs (metadata taskData) (subtaskDirsOf taskId v)) dryRun
                                    (if promotes allSpecs (metadata taskData) (subtaskDirsOf taskId v)
                                     then say (PromotingParent (length (subtaskDirsOf taskId v))) w2
                                     else w2)))"
      using returned_await [OF ret [unfolded unfold]] by blast
    then obtain w1 where A: "?A = Ret () w1"
      and ret1: "returned (await (forEach (\<lambda>subtaskId. syncSubtask listId (task_id existingTask) subtaskId
                                      allSpecs dryRun) (subtaskDirsOf taskId w1) w1)
                                  (\<lambda>_ w2. reconcileStatus Task existingTask
                                    (targetStatus allSpecs (metadata taskData) (subtaskDirsOf taskId w1)) dryRun
                                    (if promotes allSpecs (metadata taskData) (subtaskDirsOf taskId w1)
                                     then say (PromotingParent (length (subtaskDirsOf taskId w1))) w2
                                     else w2)))"
      by auto
    have ds1: "subtaskDirsOf taskId w1 = ?ds"
      using A ds [of w1] by simp
    have "\<exists>x v. ?B w1 = Ret x v"
      using returned_await [OF ret1 [unfolded ds1]] by blast
    then obtain w2 where B: "?B w1 = Ret () w2"
      by auto
    have whole: "syncTask listId taskId allSpecs dryRun w = ?C w2"
      unfolding unfold using A B ds1 pr by (simp add: await_def targetStatus_def)
    show ?thesis
      unfolding whole
      using promoted_reconcileStatus [OF cur, of Task dryRun "say (PromotingParent (length ?ds)) w2"]
      by (auto simp: Let_def say_def split: if_splits)
  qed
  show ?thesis
    using a b c d e by blast
qed

theorem children_complete_promote_task_witness:
  "exampleSpecs ''E02-F01-T01'' = Some (specDoc ''Schema'' ''in_progress'')
   \<and> findTaskByCustomId ''l1'' ''E02-F01-T01'' exampleAfterFirstRun
       = Some ((remoteItem ''t1'' ''E02-F01-T01: Schema'' ''IN PROGRESS'')
                 \<lparr> task_description := ''Body'' \<rparr>)
   \<and> subtaskDirsOf ''E02-F01-T01'' exampleAfterFirstRun = [''E02-F01-T01-S01'', ''E02-F01-T01-S02'']
   \<and> targetStatus exampleSpecs (metadata (specDoc ''Schema'' ''in_progress''))
        [''E02-F01-T01-S01'', ''E02-F01-T01-S02''] = ''COMPLETE''
   \<and> last (calls (worldOf (syncTask ''l1'' ''E02-F01-T01'' exampleSpecs False exampleAfterFirstRun)))
       = UpdateTask ''t1'' (setStatus ''COMPLETE'')"
proof -
  let ?e = "(remoteItem ''t1'' ''E02-F01-T01: Schema'' ''IN PROGRESS'')\<lparr> task_description := ''Body'' \<rparr>"
  let ?d = "specDoc ''Schema'' ''in_progress''"
  have s: "exampleSpecs ''E02-F01-T01'' = Some ?d"
    by (simp add: exampleSpecs_def scenarioSpecs_def)
  have f: "findTaskByCustomId ''l1'' ''E02-F01-T01'' exampleAfterFirstRun = Some ?e"
    by code_simp
  have ds: "subtaskDirsOf ''E02-F01-T01'' exampleAfterFirstRun = [''E02-F01-T01-S01'', ''E02-F01-T01-S02'']"
    by code_simp
  have ch: "\<forall>s\<in>set (subtaskDirsOf ''E02-F01-T01'' exampleAfterFirstRun).
              \<exists>sd. exampleSpecs s = Some sd \<and> mapStatusToClickUp (status (metadata sd)) = ''COMPLETE''"
    unfolding ds
    by (simp add: exampleSpecs_def scenarioSpecs_def specDoc_def mapStatusToClickUp_def
        statusMap_def toLowerCase_def)
  have own: "mapStatusToClickUp (status (metadata ?d)) \<noteq> ''COMPLETE''"
    by (simp add: specDoc_def mapStatusToClickUp_def statusMap_def toLowerCase_def)
  have cur: "task_status ?e \<noteq> ''COMPLETE''" "task_id ?e = ''t1''"
    by (simp_all add: remoteItem_def)
  have ret: "returned (syncTask ''l1'' ''E02-F01-T01'' exampleSpecs False exampleAfterFirstRun)"
    by code_simp
  have ne: "subtaskDirsOf ''E02-F01-T01'' exampleAfterFirstRun \<noteq> []"
    unfolding ds by simp
  have tg: "targetStatus exampleSpecs (metadata ?d) [''E02-F01-T01-S01'', ''E02-F01-T01-S02'']
              = ''COMPLETE''"
    by (rule children_complete_promote_task [where allSpecs = exampleSpecs and taskSpec = "metadata ?d"
                   and subtaskDirs = "[''E02-F01-T01-S01'', ''E02-F01-T01-S02'']",
                 THEN conjunct1, THEN mp])
       (use ch own in \<open>simp add: ds\<close>)
  have "let w' = worldOf (syncTask ''l1'' ''E02-F01-T01'' exampleSpecs False exampleAfterFirstRun)
        in if False
           then last (out w') = DryRunWouldUpdateStatus Task (task_status ?e) ''COMPLETE''
           else last (calls w') = UpdateTask (task_id ?e) (setStatus ''COMPLETE'')"
    by (rule children_complete_promote_task [where allSpecs = exampleSpecs and taskId = "''E02-F01-T01''" and taskData = ?d
                   and listId = "''l1''" and w = exampleAfterFirstRun and existingTask = ?e
                   and dryRun = False,
                 THEN conjunct2, THEN conjunct2, THEN conjunct2, THEN conjunct2, THEN mp])
       (intro conjI s f ne ch own cur(1) ret)
  then have en: "last (calls (worldOf (syncTask ''l1'' ''E02-F01-T01'' exampleSpecs False
                                        exampleAfterFirstRun)))
                   = UpdateTask ''t1'' (setStatus ''COMPLETE'')"
    by (simp only: Let_def if_False cur(2))
  show ?thesis
    by (intro conjI s f ds tg en)
qed

section \<open>The scenario of the epic E02\<close>

lemma first_calls:
  "calls (worldOf (syncEpic ''space'' ''E02'' (scenarioSpecs et ft tt s1 s2) False scenarioWorld)) =
     [CreateFolder ''space'' (''E02 - '' @ et),
      CreateList ''f1'' (''E02-F01: '' @ ft),
      CreateTask ''l1'' \<lparr> new_name = ''E02-F01-T01: '' @ tt, new_description = ''Body'',
                          new_status = ''IN PROGRESS'', new_priority = 3, new_tags = [] \<rparr>,
      CreateTask ''l1'' \<lparr> new_name = ''E02-F01-T01-S01: '' @ s1, new_description = ''Body'',
                          new_status = ''COMPLETE'', new_priority = 3, new_tags = [] \<rparr>,
      UpdateTask ''s1'' (setParent ''t1''),
      CreateTask ''l1'' \<lparr> new_name = ''E02-F01-T01-S02: '' @ s2, new_description = ''Body'',
                          new_status = ''COMPLETE'', new_priority = 3, new_tags = [] \<rparr>,
      UpdateTask ''s2'' (setParent ''t1'')]"
  by code_simp

lemma first_returned:
  "returned (syncEpic ''space'' ''E02'' (scenarioSpecs et ft tt s1 s2) False scenarioWorld)"
  by code_simp

lemma first_statuses:
  "statusesOf ''t1'' (worldOf (syncEpic ''space'' ''E02'' (scenarioSpecs et ft tt s1 s2) False scenarioWorld))
     = [''IN PROGRESS'']"
  by code_simp

lemma second_calls:
  "calls (worldOf (syncEpic ''space'' ''E02'' (scenarioSpecs et ft tt s1 s2) False
                     (afterFirstRun et ft tt s1 s2)))
     = [UpdateTask ''t1'' (setStatus ''COMPLETE'')]"
  by code_simp

lemma second_returned:
  "returned (syncEpic ''space'' ''E02'' (scenarioSpecs et ft tt s1 s2) False
                     (afterFirstRun et ft tt s1 s2))"
  by code_simp

text \<open>
  In the first live run of the scenario no call sets the status of the new item of the
  task, and the service holds \<open>IN PROGRESS\<close> for it when the run is over.
\<close>

theorem first_run_does_not_promote_created_task:
  "\<not> list_ex (statusUpdateFor ''t1'')
       (calls (worldOf (syncEpic ''space'' ''E02'' exampleSpecs False scenarioWorld)))
   \<and> statusesOf ''t1'' (worldOf (syncEpic ''space'' ''E02'' exampleSpecs False scenarioWorld))
       = [''IN PROGRESS'']"
  by code_simp

text \<open>
  C3, as amended. Syncing the epic \<open>E02\<close> of the scenario against a space that holds
  nothing creates, in this order, the folder \<open>E02 - <epic title>\<close>, the list
  \<open>E02-F01: <feature title>\<close>, the item \<open>E02-F01-T01: <title>\<close> with the status
  \<open>IN PROGRESS\<close>, and the items of the two subtasks with the status \<open>COMPLETE\<close>, each
  followed by the update that sets its parent. This run sets the status of the item of
  the task nowhere: the branch of \<open>syncTask\<close> that creates an item has no promotion. The
  next run finds the item and issues one call, the update of its status to \<open>COMPLETE\<close>.
\<close>

theorem first_run_creates_second_run_promotes:
  "(let r = syncEpic ''space'' ''E02'' (scenarioSpecs et ft tt s1 s2) False scenarioWorld
    in returned r
       \<and> calls (worldOf r) =
           [CreateFolder ''space'' (''E02 - '' @ et),
            CreateList ''f1'' (''E02-F01: '' @ ft),
            CreateTask ''l1'' \<lparr> new_name = ''E02-F01-T01: '' @ tt, new_description = ''Body'',
                                new_status = ''IN PROGRESS'', new_priority = 3, new_tags = [] \<rparr>,
            CreateTask ''l1'' \<lparr> new_name = ''E02-F01-T01-S01: '' @ s1, new_description = ''Body'',
                                new_status = ''COMPLETE'', new_priority = 3, new_tags = [] \<rparr>,
            UpdateTask ''s1'' (setParent ''t1''),
            CreateTask ''l1'' \<lparr> new_name = ''E02-F01-T01-S02: '' @ s2, new_description = ''Body'',
                                new_status = ''COMPLETE'', new_priority = 3, new_tags = [] \<rparr>,
            UpdateTask ''s2'' (setParent ''t1'')]
       \<and> statusesOf ''t1'' (worldOf r) = [''IN PROGRESS''])
   \<and> (let r = syncEpic ''space'' ''E02'' (scenarioSpecs et ft tt s1 s2) False
                 (afterFirstRun et ft tt s1 s2)
      in returned r \<and> calls (worldOf r) = [UpdateTask ''t1'' (setStatus ''COMPLETE'')])"
  unfolding Let_def
  by (intro conjI first_returned first_calls first_statuses second_returned second_calls)

theorem first_run_creates_second_run_promotes_witness:
  "returned (syncEpic ''space'' ''E02'' exampleSpecs False exampleAfterFirstRun)
   \<and> calls (worldOf (syncEpic ''space'' ''E02'' exampleSpecs False exampleAfterFirstRun))
       = [UpdateTask ''t1'' (setStatus ''COMPLETE'')]"
  using first_run_creates_second_run_promotes
          [of "''Data Layer''" "''Storage''" "''Schema''" "''Tables''" "''Indexes''"]
  unfolding Let_def exampleSpecs_def exampleAfterFirstRun_def
  by (elim conjE) (intro conjI)

section \<open>Dry runs\<close>

lemma onlyOutput_refl [simp]: "onlyOutput w w"
  by (simp add: onlyOutput_def)

lemma onlyOutput_say [simp]: "onlyOutput w (say l v) = onlyOutput w v"
  by (cases w; cases v) (auto simp: onlyOutput_def say_def)

lemma dry_reconcileName: "onlyOutput w v \<Longrightarrow> onlyOutput w (worldOf (reconcileName lv e nm True v))"
  by (simp add: reconcileName_def)

lemma dry_reconcileStatus: "onlyOutput w v \<Longrightarrow> onlyOutput w (worldOf (reconcileStatus lv e st True v))"
  by (simp add: reconcileStatus_def Let_def)

lemma dry_syncSubtask:
  "onlyOutput w v \<Longrightarrow> onlyOutput w (worldOf (syncSubtask listId parent sid allSpecs True v))"
  by (simp add: syncSubtask_def reconcileName_def reconcileStatus_def await_def Let_def
      split: option.splits)

lemma dry_syncExtension:
  "onlyOutput w v \<Longrightarrow> onlyOutput w (worldOf (syncExtension listId parent sid allSpecs True v))"
  by (simp add: syncExtension_def reconcileName_def reconcileStatus_def await_def Let_def
      split: option.splits)

lemma dry_syncTask:
  assumes "onlyOutput w v"
  shows "onlyOutput w (worldOf (syncTask listId taskId allSpecs True v))"
proof (cases "allSpecs taskId")
  case None
  then show ?thesis using assms by (simp add: syncTask_def)
next
  case (Some d)
  show ?thesis
  proof (cases "findTaskByCustomId listId taskId v")
    case None
    then show ?thesis using assms Some by (simp add: syncTask_def Let_def)
  next
    case (Some e)
    have "onlyOutput w (worldOf
      (await (reconcileName Task e (taskId @ '': '' @ title (metadata d)) True
                (say (ItemExists Task taskId (title (metadata d))) v))
         (\<lambda>_ w1. await (forEach (\<lambda>subtaskId. syncSubtask listId (task_id e) subtaskId allSpecs True)
                          (subtaskDirsOf taskId w1) w1)
                   (\<lambda>_ w2. reconcileStatus Task e
                             (targetStatus allSpecs (metadata d) (subtaskDirsOf taskId w1)) True
                             (if promotes allSpecs (metadata d) (subtaskDirsOf taskId w1)
                              then say (PromotingParent (length (subtaskDirsOf taskId w1))) w2
                              else w2)))))"
    proof (rule await_invariant)
      show "onlyOutput w (worldOf (reconcileName Task e (taskId @ '': '' @ title (metadata d)) True
                (say (ItemExists Task taskId (title (metadata d))) v)))"
        by (rule dry_reconcileName) (simp add: assms)
    next
      fix w1 assume w1: "onlyOutput w w1"
      show "onlyOutput w (worldOf (await (forEach (\<lambda>subtaskId. syncSubtask listId (task_id e) subtaskId allSpecs True)
                          (subtaskDirsOf taskId w1) w1)
                   (\<lambda>_ w2. reconcileStatus Task e
                             (targetStatus allSpecs (metadata d) (subtaskDirsOf taskId w1)) True
                             (if promotes allSpecs (metadata d) (subtaskDirsOf taskId w1)
                              then say (PromotingParent (length (subtaskDirsOf taskId w1))) w2
                              else w2))))"
      proof (rule await_invariant)
        show "onlyOutput w (worldOf (forEach (\<lambda>subtaskId. syncSubtask listId (task_id e) subtaskId allSpecs True)
                          (subtaskDirsOf taskId w1) w1))"
          by (rule forEach_invariant [where J = "onlyOutput w"]) (simp_all add: w1 dry_syncSubtask)
      next
        fix w2 assume "onlyOutput w w2"
        then show "onlyOutput w (worldOf (reconcileStatus Task e
                             (targetStatus allSpecs (metadata d) (subtaskDirsOf taskId w1)) True
                             (if promotes allSpecs (metadata d) (subtaskDirsOf taskId w1)
                              then say (PromotingParent (length (subtaskDirsOf taskId w1))) w2
                              else w2)))"
          by (intro dry_reconcileStatus) simp
      qed
    qed
    then show ?thesis using \<open>allSpecs taskId = Some d\<close> Some by (simp add: syncTask_def Let_def)
  qed
qed

lemma dry_syncFeature:
  assumes "onlyOutput w v"
  shows "onlyOutput w (worldOf (syncFeature folderId featureId allSpecs True v))"
proof -
  have loop: "onlyOutput w (worldOf (forEach (\<lambda>taskId. syncTask l taskId allSpecs True) ds u))"
    if "onlyOutput w u" for l ds u
    by (rule forEach_invariant [where J = "onlyOutput w"]) (simp_all add: that dry_syncTask)
  show ?thesis
    using assms
    by (auto simp: syncFeature_def Let_def await_def loop split: option.splits)
qed

lemma dry_syncEpic:
  assumes "onlyOutput w v"
  shows "onlyOutput w (worldOf (syncEpic spaceId epicId allSpecs True v))"
proof -
  have loop: "onlyOutput w (worldOf (forEach (\<lambda>featureId. syncFeature f featureId allSpecs True) ds u))"
    if "onlyOutput w u" for f ds u
    by (rule forEach_invariant [where J = "onlyOutput w"]) (simp_all add: that dry_syncFeature)
  show ?thesis
    using assms
    by (auto simp: syncEpic_def Let_def await_def loop split: option.splits)
qed


lemma findFolder_say [simp]: "findFolder sp n (say l w) = findFolder sp n w"
  by (simp add: findFolder_def getFolders_def say_def)

lemma findList_say [simp]: "findList f n (say l w) = findList f n w"
  by (simp add: findList_def getLists_def say_def)

subsection \<open>Prefixes\<close>

lemma startsWith_iff: "startsWith s p = (\<exists>z. s = p @ z)"
  unfolding startsWith_def
  by (metis append_eq_conv_conj append_take_drop_id)

lemma comparable_prefixes: "startsWith s a \<Longrightarrow> startsWith s b \<Longrightarrow> comparable a b"
  unfolding comparable_def startsWith_iff
  by (metis append_eq_append_conv2)

lemma touched_covers: "covers ps qs \<Longrightarrow> touched qs t \<Longrightarrow> touched ps t"
  unfolding covers_def touched_def list_all_iff list_ex_iff startsWith_iff
  by (metis append.assoc)

lemma covers_refl [simp]: "covers ps ps"
  unfolding covers_def list_all_iff list_ex_iff startsWith_iff by auto

lemma find_filter_imp: "(\<And>x. P x \<Longrightarrow> R x) \<Longrightarrow> find P (filter R xs) = find P xs"
  by (induction xs) auto

lemma lookup_untouched:
  assumes "\<forall>p\<in>set ps. \<not> comparable p (Y @ '':'')"
  shows "findTaskByCustomId l Y v =
           find (\<lambda>t. startsWith (task_name t) (Y @ '':''))
             (filter (\<lambda>t. task_list t = l) (untouched ps v))"
proof -
  have imp: "\<not> touched ps t" if "startsWith (task_name t) (Y @ '':'')" for t
    using that assms comparable_prefixes unfolding touched_def list_ex_iff by blast
  have "filter (\<lambda>t. task_list t = l) (untouched ps v)
          = filter (\<lambda>t. \<not> touched ps t) (getTasks l v)"
    unfolding untouched_def getTasks_def by (simp add: conj_commute)
  then show ?thesis
    unfolding findTaskByCustomId_def using find_filter_imp [of _ "\<lambda>t. \<not> touched ps t", OF imp]
    by simp
qed

lemma findSubtask_eq: "findSubtaskByCustomId = findTaskByCustomId"
  by (intro ext) (simp add: findSubtaskByCustomId_def findTaskByCustomId_def)

lemma keeps_lookup:
  assumes "keeps ps v v'" and "\<forall>p\<in>set ps. \<not> comparable p (Y @ '':'')"
  shows "findTaskByCustomId l Y v' = findTaskByCustomId l Y v"
  using assms(1) unfolding lookup_untouched [OF assms(2)] keeps_def by simp

lemma keeps_refl: "uniqueIds v \<Longrightarrow> keeps ps v v"
  by (simp add: keeps_def)

lemma keeps_trans: "keeps ps v v' \<Longrightarrow> keeps ps v' v'' \<Longrightarrow> keeps ps v v''"
  by (simp add: keeps_def)

lemma keeps_covers:
  assumes "keeps qs v v'" and "covers ps qs"
  shows "keeps ps v v'"
proof -
  have "untouched ps u = filter (\<lambda>t. \<not> touched ps t) (untouched qs u)" for u
    unfolding untouched_def using touched_covers [OF assms(2)]
    by (auto intro: filter_cong)
  then show ?thesis using assms(1) by (simp add: keeps_def)
qed

lemma keeps_say [simp]: "keeps ps v (say l v') = keeps ps v v'"
  by (simp add: keeps_def say_def uniqueIds_def untouched_def)

lemma keeps_say_left [simp]: "keeps ps (say l v) v' = keeps ps v v'"
  by (simp add: keeps_def say_def uniqueIds_def untouched_def)

lemma keeps_writeBack [simp]: "keeps ps v (writeBack s i v') = keeps ps v v'"
  by (simp add: keeps_def writeBack_def say_def uniqueIds_def untouched_def split: prod.splits)

lemma owned_say [simp]: "owned i ps (say l v) = owned i ps v"
  by (simp add: owned_def say_def)

lemma uniqueIds_say [simp]: "uniqueIds (say l v) = uniqueIds v"
  by (simp add: uniqueIds_def say_def)

lemma uniqueIds_writeBack [simp]: "uniqueIds (writeBack s i v) = uniqueIds v"
  by (simp add: uniqueIds_def writeBack_def say_def split: prod.splits)

lemma keeps_unique: "keeps ps v v' \<Longrightarrow> uniqueIds v'"
  by (simp add: keeps_def)

lemma owned_found:
  assumes "uniqueIds v" and "e \<in> set (tasks v)" and "touched ps e"
  shows "owned (task_id e) ps v"
proof -
  have dist: "distinct (map task_id (tasks v))"
    using assms(1) by (simp add: uniqueIds_def)
  have "t = e" if "t \<in> set (tasks v)" "task_id t = task_id e" for t
    using that assms(2) dist by (meson distinct_map inj_onD)
  then show ?thesis unfolding owned_def list_all_iff using assms(3) by blast
qed

lemma owned_keeps:
  assumes "owned i ps v" and "keeps qs v v'"
  shows "owned i (ps @ qs) v'"
  unfolding owned_def list_all_iff
proof (intro ballI impI)
  fix t assume t: "t \<in> set (tasks v')" "task_id t = i"
  show "touched (ps @ qs) t"
  proof (cases "touched qs t")
    case True
    then show ?thesis by (simp add: touched_def)
  next
    case False
    then have "t \<in> set (untouched qs v')" using t(1) by (simp add: untouched_def)
    then have "t \<in> set (untouched qs v)" using assms(2) by (simp add: keeps_def)
    then have "t \<in> set (tasks v)" by (simp add: untouched_def)
    then have "touched ps t" using assms(1) t(2) by (auto simp: owned_def list_all_iff)
    then show ?thesis by (simp add: touched_def)
  qed
qed

lemma owned_covers: "owned i qs v \<Longrightarrow> covers ps qs \<Longrightarrow> owned i ps v"
  unfolding owned_def list_all_iff using touched_covers by blast

subsection \<open>Update and create\<close>

lemma lists_updateTask [simp]: "lists (worldOf (updateTask j d w)) = lists w"
  by (simp add: updateTask_def issue_def)

lemma folders_updateTask [simp]: "folders (worldOf (updateTask j d w)) = folders w"
  by (simp add: updateTask_def issue_def)

lemma filter_map_same:
  assumes "\<And>t. t \<in> set xs \<Longrightarrow> g t \<noteq> t \<Longrightarrow> \<not> Q t \<and> \<not> Q (g t)"
  shows "filter Q (map g xs) = filter Q xs"
  using assms
proof (induction xs)
  case Nil
  then show ?case by simp
next
  case (Cons a xs)
  have IH: "filter Q (map g xs) = filter Q xs"
    using Cons by simp
  show ?case
  proof (cases "g a = a")
    case True
    then show ?thesis using IH by simp
  next
    case False
    then have "\<not> Q a \<and> \<not> Q (g a)" using Cons.prems by simp
    then show ?thesis using IH by simp
  qed
qed

lemma keeps_updateTask:
  assumes u: "uniqueIds v" and o: "owned i ps v"
    and n: "case upd_name d of None \<Rightarrow> True | Some n \<Rightarrow> list_ex (startsWith n) ps"
  shows "keeps ps v (worldOf (updateTask i d v))" and "owned i ps (worldOf (updateTask i d v))"
proof -
  let ?g = "\<lambda>t. if task_id t = i then applyUpdate d t else t"
  have tn: "touched ps (applyUpdate d t)" if "touched ps t" for t
    using n that by (auto simp: applyUpdate_def touched_def split: option.splits)
  have tasks: "tasks (worldOf (updateTask i d v)) = tasks v
               \<or> tasks (worldOf (updateTask i d v)) = map ?g (tasks v)"
    by (simp add: updateTask_def issue_def)
  have same: "filter (\<lambda>t. \<not> touched ps t) (map ?g (tasks v)) = filter (\<lambda>t. \<not> touched ps t) (tasks v)"
  proof (rule filter_map_same)
    fix t assume "t \<in> set (tasks v)" "?g t \<noteq> t"
    then have "task_id t = i" "touched ps t"
      using o by (auto simp: owned_def list_all_iff split: if_splits)
    then show "\<not> \<not> touched ps t \<and> \<not> \<not> touched ps (?g t)" using tn by simp
  qed
  have "untouched ps (worldOf (updateTask i d v)) = untouched ps v"
    using tasks same unfolding untouched_def by auto
  moreover have "uniqueIds (worldOf (updateTask i d v))"
    using u by (simp add: uniqueIds_def)
  ultimately show "keeps ps v (worldOf (updateTask i d v))"
    by (simp add: keeps_def)
  have old: "touched ps t" if "t \<in> set (tasks v)" "task_id t = i" for t
    using o that by (simp add: owned_def list_all_iff)
  show "owned i ps (worldOf (updateTask i d v))"
    unfolding owned_def list_all_iff
  proof (intro ballI impI)
    fix t assume t: "t \<in> set (tasks (worldOf (updateTask i d v)))" "task_id t = i"
    from tasks show "touched ps t"
    proof
      assume "tasks (worldOf (updateTask i d v)) = tasks v"
      then show ?thesis using t old by simp
    next
      assume "tasks (worldOf (updateTask i d v)) = map ?g (tasks v)"
      then obtain x where x: "x \<in> set (tasks v)" "t = ?g x" using t(1) by auto
      show ?thesis
      proof (cases "task_id x = i")
        case True
        then show ?thesis using x old tn by simp
      next
        case False
        then show ?thesis using x t(2) by simp
      qed
    qed
  qed
qed

lemma keeps_createTask:
  assumes u: "uniqueIds v" and n: "list_ex (startsWith (new_name data)) ps"
  shows "keeps ps v (worldOf (createTask l data v))"
    and "createTask l data v = Ret t v' \<Longrightarrow> owned (task_id t) ps v'"
proof -
  have dist: "distinct (map task_id (tasks v) @ idSupply v)"
    using u by (simp add: uniqueIds_def)
  show "keeps ps v (worldOf (createTask l data v))"
  proof (cases "idSupply v")
    case Nil
    then show ?thesis using u
      by (simp add: createTask_def issue_def keeps_def uniqueIds_def untouched_def)
  next
    case (Cons a rest)
    have "distinct (map task_id (tasks v) @ a # rest)" using dist Cons by simp
    then show ?thesis using Cons n
      by (simp add: createTask_def issue_def keeps_def uniqueIds_def untouched_def Let_def touched_def)
  qed
  assume r: "createTask l data v = Ret t v'"
  then obtain a rest where s: "idSupply v = a # rest"
    by (cases "idSupply v") (simp_all add: createTask_def)
  have fresh: "a \<notin> task_id ` set (tasks v)" using dist s by auto
  have tv: "task_id t = a" "task_name t = new_name data" "tasks v' = tasks v @ [t]"
    using r s by (auto simp: createTask_def Let_def issue_def)
  show "owned (task_id t) ps v'"
    unfolding owned_def list_all_iff
  proof (intro ballI impI)
    fix x assume x: "x \<in> set (tasks v')" "task_id x = task_id t"
    have "x \<notin> set (tasks v)" using x(2) fresh tv(1) by (metis imageI)
    then have "x = t" using x(1) tv(3) by simp
    then show "touched ps x" using n tv(2) by (simp add: touched_def)
  qed
qed

lemma map_filter_append: "List.map_filter f (xs @ ys) = List.map_filter f xs @ List.map_filter f ys"
  by (simp add: List.map_filter_def)

lemma announces_refl [simp]: "announces v v []"
  by (simp add: announces_def List.map_filter_def)

lemma announces_trans:
  "announces v v' a \<Longrightarrow> announces v' v'' b \<Longrightarrow> announces v v'' (a @ b)"
  unfolding announces_def by (auto simp: map_filter_append)

lemma announces_say:
  "announces v v' a \<Longrightarrow> announces v (say l v') (a @ (case announced l of None \<Rightarrow> [] | Some x \<Rightarrow> [x]))"
  unfolding announces_def
  by (auto simp: say_def map_filter_append List.map_filter_def split: option.splits)

lemma performs_refl [simp]: "performs v v []"
  by (simp add: performs_def List.map_filter_def)

lemma performs_trans:
  "performs v v' a \<Longrightarrow> performs v' v'' b \<Longrightarrow> performs v v'' (a @ b)"
  unfolding performs_def by (auto simp: map_filter_append)

lemma performs_say [simp]: "performs v (say l v') a = performs v v' a"
  by (simp add: performs_def say_def)

lemma performs_say_left [simp]: "performs (say l v) v' a = performs v v' a"
  by (simp add: performs_def say_def)

lemma performs_writeBack [simp]: "performs v (writeBack s i v') a = performs v v' a"
  by (simp add: performs_def writeBack_def say_def split: prod.splits)

lemma performs_updateTask:
  "performs v (worldOf (updateTask i d v))
     (case performed (UpdateTask i d) of None \<Rightarrow> [] | Some x \<Rightarrow> [x])"
  by (simp add: performs_def List.map_filter_def split: option.splits)

lemma calls_createTask [simp]:
  "calls (worldOf (createTask l d v)) = calls v @ [CreateTask l d]"
  by (simp add: createTask_def issue_def Let_def split: list.splits)

lemma performs_createTask:
  "performs v (worldOf (createTask l d v)) [MakeItem (new_name d)]"
  by (simp add: performs_def List.map_filter_def performed_def)

lemma returned_awaitE:
  assumes "returned (await r k)"
  obtains x v1 where "r = Ret x v1" and "await r k = k x v1" and "returned (k x v1)"
  using assms by (cases r) (simp_all add: await_def)

lemma returned_Ret: "returned r \<Longrightarrow> r = Ret () (worldOf r)"
  by (cases r) simp_all

subsection \<open>Dry run of the reconcilers and of an item\<close>

lemma dry_reconcileName_plan:
  "announces v (worldOf (reconcileName lv e nm True v)) (renamePlan e nm)"
  by (simp add: reconcileName_def renamePlan_def announces_def say_def List.map_filter_def
      announced_def)

lemma dry_reconcileStatus_plan:
  "announces v (worldOf (reconcileStatus lv e st True v)) (restatusPlan e st)"
  by (simp add: reconcileStatus_def restatusPlan_def announces_def say_def List.map_filter_def
      announced_def Let_def)

lemma dry_returns_reconcileName: "returned (reconcileName lv e nm True v)"
  by (simp add: reconcileName_def)

lemma dry_returns_reconcileStatus: "returned (reconcileStatus lv e st True v)"
  by (simp add: reconcileStatus_def Let_def)

lemma find_say [simp]:
  "findTaskByCustomId l X (say x v) = findTaskByCustomId l X v"
  "findSubtaskByCustomId l X (say x v) = findSubtaskByCustomId l X v"
  by (simp_all add: findTaskByCustomId_def findSubtaskByCustomId_def getTasks_def say_def)

lemma itemPlan_say [simp]: "itemPlan l X specs (say x v) = itemPlan l X specs v"
  by (simp add: itemPlan_def cong: option.case_cong)

lemma dry_body:
  "announced x = None \<Longrightarrow> announces v
     (worldOf (await (reconcileName lv e nm True (say x v)) (\<lambda>_. reconcileStatus lv e st True)))
     (renamePlan e nm @ restatusPlan e st)
   \<and> returned (await (reconcileName lv e nm True (say x v)) (\<lambda>_. reconcileStatus lv e st True))"
  by (simp add: reconcileName_def reconcileStatus_def renamePlan_def restatusPlan_def
      announces_def say_def List.map_filter_def announced_def Let_def await_def)

lemma dry_syncSubtask_plan:
  "announces v (worldOf (syncSubtask l p X specs True v)) (itemPlan l X specs v)
   \<and> returned (syncSubtask l p X specs True v)"
proof (cases "specs X")
  case None
  then show ?thesis
    by (simp add: syncSubtask_def itemPlan_def announces_def say_def List.map_filter_def announced_def)
next
  case (Some d)
  show ?thesis
  proof (cases "findSubtaskByCustomId l X v")
    case None
    then show ?thesis using Some
      by (simp add: syncSubtask_def itemPlan_def announces_def say_def List.map_filter_def
          announced_def Let_def)
  next
    case (Some e)
    then show ?thesis
      using \<open>specs X = Some d\<close>
        dry_body [of "ItemExists Subtask X (title (metadata d))" v Subtask e]
      by (simp add: syncSubtask_def itemPlan_def Let_def announced_def)
  qed
qed

lemma dry_syncExtension_plan:
  "announces v (worldOf (syncExtension l p X specs True v)) (itemPlan l X specs v)
   \<and> returned (syncExtension l p X specs True v)"
proof (cases "specs X")
  case None
  then show ?thesis
    by (simp add: syncExtension_def itemPlan_def announces_def say_def List.map_filter_def announced_def)
next
  case (Some d)
  show ?thesis
  proof (cases "findSubtaskByCustomId l X v")
    case None
    then show ?thesis using Some
      by (simp add: syncExtension_def itemPlan_def announces_def say_def List.map_filter_def
          announced_def Let_def)
  next
    case (Some e)
    then show ?thesis
      using \<open>specs X = Some d\<close>
        dry_body [of "ItemExists Extension X (title (metadata d))" v Extension e]
      by (simp add: syncExtension_def itemPlan_def Let_def announced_def)
  qed
qed

subsection \<open>Live run of the reconcilers and of an item\<close>

lemma live_update:
  assumes u: "uniqueIds v" and o: "owned i ps v"
    and n: "case upd_name d of None \<Rightarrow> True | Some n \<Rightarrow> list_ex (startsWith n) ps"
  shows "keeps ps v (worldOf (await (updateTask i d (say x v)) (\<lambda>_ w'. Ret () (say y w'))))"
    and "owned i ps (worldOf (await (updateTask i d (say x v)) (\<lambda>_ w'. Ret () (say y w'))))"
    and "performs v (worldOf (await (updateTask i d (say x v)) (\<lambda>_ w'. Ret () (say y w'))))
           (case performed (UpdateTask i d) of None \<Rightarrow> [] | Some a \<Rightarrow> [a])"
proof -
  let ?u = "worldOf (updateTask i d (say x v))"
  have w: "worldOf (await (updateTask i d (say x v)) (\<lambda>_ w'. Ret () (say y w'))) = ?u
         \<or> worldOf (await (updateTask i d (say x v)) (\<lambda>_ w'. Ret () (say y w'))) = say y ?u"
    by (cases "updateTask i d (say x v)") (simp_all add: await_def)
  have k: "keeps ps v ?u"
    using keeps_updateTask(1) [of "say x v" i ps d] u o n by simp
  have ow: "owned i ps ?u"
    using keeps_updateTask(2) [of "say x v" i ps d] u o n by simp
  have p: "performs v ?u (case performed (UpdateTask i d) of None \<Rightarrow> [] | Some a \<Rightarrow> [a])"
    using performs_updateTask [of "say x v" i d] by simp
  show "keeps ps v (worldOf (await (updateTask i d (say x v)) (\<lambda>_ w'. Ret () (say y w'))))"
    using w k by auto
  show "owned i ps (worldOf (await (updateTask i d (say x v)) (\<lambda>_ w'. Ret () (say y w'))))"
    using w ow by auto
  show "performs v (worldOf (await (updateTask i d (say x v)) (\<lambda>_ w'. Ret () (say y w'))))
           (case performed (UpdateTask i d) of None \<Rightarrow> [] | Some a \<Rightarrow> [a])"
    using w p by auto
qed

lemma live_reconcileName:
  assumes u: "uniqueIds v" and o: "owned (task_id e) ps v" and n: "list_ex (startsWith nm) ps"
  shows "keeps ps v (worldOf (reconcileName lv e nm False v))"
    and "owned (task_id e) ps (worldOf (reconcileName lv e nm False v))"
    and "performs v (worldOf (reconcileName lv e nm False v)) (renamePlan e nm)"
proof -
  have n': "case upd_name (setName nm) of None \<Rightarrow> True | Some n \<Rightarrow> list_ex (startsWith n) ps"
    using n by (simp add: setName_def)
  have p: "performed (UpdateTask (task_id e) (setName nm)) = Some (Rename nm)"
    by (simp add: performed_def setName_def)
  note L = live_update [OF u o n', unfolded p option.case]
  show "keeps ps v (worldOf (reconcileName lv e nm False v))"
    using L(1) u by (simp add: reconcileName_def keeps_refl)
  show "owned (task_id e) ps (worldOf (reconcileName lv e nm False v))"
    using L(2) o by (simp add: reconcileName_def)
  show "performs v (worldOf (reconcileName lv e nm False v)) (renamePlan e nm)"
    using L(3) by (simp add: reconcileName_def renamePlan_def)
qed

lemma live_reconcileStatus:
  assumes u: "uniqueIds v" and o: "owned (task_id e) ps v"
  shows "keeps ps v (worldOf (reconcileStatus lv e st False v))"
    and "performs v (worldOf (reconcileStatus lv e st False v)) (restatusPlan e st)"
proof -
  have n': "case upd_name (setStatus st) of None \<Rightarrow> True | Some n \<Rightarrow> list_ex (startsWith n) ps"
    by (simp add: setStatus_def)
  have p: "performed (UpdateTask (task_id e) (setStatus st)) = Some (Restatus st)"
    by (simp add: performed_def setStatus_def)
  note L = live_update [OF u o n', unfolded p option.case]
  show "keeps ps v (worldOf (reconcileStatus lv e st False v))"
    using L(1) u by (simp add: reconcileStatus_def keeps_refl Let_def)
  show "performs v (worldOf (reconcileStatus lv e st False v)) (restatusPlan e st)"
    using L(3) by (simp add: reconcileStatus_def restatusPlan_def Let_def)
qed

lemma startsWith_append [simp]: "startsWith (p @ r) p"
  by (simp add: startsWith_def)

lemma performed_setParent [simp]: "performed (UpdateTask i (setParent p)) = None"
  by (simp add: performed_def setParent_def)

lemma found_owned:
  assumes "findTaskByCustomId l X v = Some e" and "uniqueIds v"
  shows "owned (task_id e) [X @ '':''] v"
proof -
  have e: "e \<in> set (tasks v)" "startsWith (task_name e) (X @ '':'')"
    using assms(1) by (auto simp: findTaskByCustomId_def getTasks_def dest!: find_Some_D)
  show ?thesis
    using assms(2) e(1) by (rule owned_found) (simp add: touched_def e(2))
qed

lemma live_body:
  assumes u: "uniqueIds v" and f: "findTaskByCustomId l X v = Some e"
    and r: "returned (await (reconcileName lv e (X @ '': '' @ t) False (say x v))
                        (\<lambda>_. reconcileStatus lv e st False))"
  shows "keeps [X @ '':''] v
           (worldOf (await (reconcileName lv e (X @ '': '' @ t) False (say x v))
                       (\<lambda>_. reconcileStatus lv e st False)))"
    and "performs v
           (worldOf (await (reconcileName lv e (X @ '': '' @ t) False (say x v))
                       (\<lambda>_. reconcileStatus lv e st False)))
           (renamePlan e (X @ '': '' @ t) @ restatusPlan e st)"
proof -
  let ?ps = "[X @ '':'']"
  let ?nm = "X @ '': '' @ t"
  have o: "owned (task_id e) ?ps (say x v)"
    using found_owned [OF f u] by simp
  have u0: "uniqueIds (say x v)" using u by simp
  have n: "list_ex (startsWith ?nm) ?ps"
    by (simp add: startsWith_def)
  obtain y v1 where 1: "reconcileName lv e ?nm False (say x v) = Ret y v1"
    and 2: "await (reconcileName lv e ?nm False (say x v)) (\<lambda>_. reconcileStatus lv e st False)
              = reconcileStatus lv e st False v1"
    using r by (rule returned_awaitE)
  have v1: "v1 = worldOf (reconcileName lv e ?nm False (say x v))"
    using 1 by simp
  have k1: "keeps ?ps v v1" and o1: "owned (task_id e) ?ps v1"
    and p1: "performs v v1 (renamePlan e ?nm)"
    using live_reconcileName [OF u0 o n, of lv] unfolding v1 by simp_all
  have u1: "uniqueIds v1" using k1 by (rule keeps_unique)
  have k2: "keeps ?ps v1 (worldOf (reconcileStatus lv e st False v1))"
    and p2: "performs v1 (worldOf (reconcileStatus lv e st False v1)) (restatusPlan e st)"
    using live_reconcileStatus [OF u1 o1] by simp_all
  show "keeps ?ps v (worldOf (await (reconcileName lv e ?nm False (say x v))
                       (\<lambda>_. reconcileStatus lv e st False)))"
    unfolding 2 using k1 k2 by (rule keeps_trans)
  show "performs v (worldOf (await (reconcileName lv e ?nm False (say x v))
                       (\<lambda>_. reconcileStatus lv e st False)))
           (renamePlan e ?nm @ restatusPlan e st)"
    unfolding 2 using p1 p2 by (rule performs_trans)
qed

lemma live_create:
  assumes u: "uniqueIds v"
    and r: "returned (await (createTask l (taskDataOf X d) (say x v))
                        (\<lambda>t w1. await (updateTask (task_id t) (setParent p) (say y w1))
                                  (\<lambda>_ w2. Ret () (writeBack X (task_id t) (say (z t) w2)))))"
  shows "keeps [X @ '':''] v
           (worldOf (await (createTask l (taskDataOf X d) (say x v))
                        (\<lambda>t w1. await (updateTask (task_id t) (setParent p) (say y w1))
                                  (\<lambda>_ w2. Ret () (writeBack X (task_id t) (say (z t) w2))))))"
    and "performs v
           (worldOf (await (createTask l (taskDataOf X d) (say x v))
                        (\<lambda>t w1. await (updateTask (task_id t) (setParent p) (say y w1))
                                  (\<lambda>_ w2. Ret () (writeBack X (task_id t) (say (z t) w2))))))
           [MakeItem (X @ '': '' @ title (metadata d))]"
proof -
  let ?ps = "[X @ '':'']"
  let ?K = "\<lambda>t w1. await (updateTask (task_id t) (setParent p) (say y w1))
                                  (\<lambda>_ w2. Ret () (writeBack X (task_id t) (say (z t) w2)))"
  have n: "list_ex (startsWith (new_name (taskDataOf X d))) ?ps"
    by (simp add: taskDataOf_def startsWith_def)
  have u0: "uniqueIds (say x v)" using u by simp
  obtain t v1 where 1: "createTask l (taskDataOf X d) (say x v) = Ret t v1"
    and 2: "await (createTask l (taskDataOf X d) (say x v)) ?K = ?K t v1"
    and 3: "returned (?K t v1)"
    using r by (rule returned_awaitE)
  have v1: "v1 = worldOf (createTask l (taskDataOf X d) (say x v))"
    using 1 by simp
  have k1: "keeps ?ps v v1"
    using keeps_createTask(1) [OF u0 n, of l] unfolding v1 by simp
  have o1: "owned (task_id t) ?ps v1"
    using keeps_createTask(2) [OF u0 n 1] .
  have p1: "performs v v1 [MakeItem (X @ '': '' @ title (metadata d))]"
    using performs_createTask [of "say x v" l "taskDataOf X d"] unfolding v1
    by (simp add: taskDataOf_def)
  have u1: "uniqueIds (say y v1)" using keeps_unique [OF k1] by simp
  have o1': "owned (task_id t) ?ps (say y v1)" using o1 by simp
  let ?u = "worldOf (updateTask (task_id t) (setParent p) (say y v1))"
  have n2: "case upd_name (setParent p) of None \<Rightarrow> True | Some n \<Rightarrow> list_ex (startsWith n) ?ps"
    by (simp add: setParent_def)
  have k2: "keeps ?ps v1 ?u"
    using keeps_updateTask(1) [OF u1 o1' n2] by simp
  have p2: "performs v1 ?u []"
    using performs_updateTask [of "say y v1" "task_id t" "setParent p"] by simp
  obtain q v2 where 4: "updateTask (task_id t) (setParent p) (say y v1) = Ret q v2"
    using 3 by (rule returned_awaitE)
  have w: "worldOf (?K t v1) = writeBack X (task_id t) (say (z t) ?u)"
    using 4 by (simp add: await_def)
  have k: "keeps ?ps v (worldOf (?K t v1))"
    unfolding w using keeps_trans [OF k1 k2] by simp
  have pf: "performs v (worldOf (?K t v1)) ([MakeItem (X @ '': '' @ title (metadata d))] @ [])"
    unfolding w using performs_trans [OF p1 p2] by simp
  show "keeps ?ps v (worldOf (await (createTask l (taskDataOf X d) (say x v)) ?K))"
    unfolding 2 by (rule k)
  show "performs v (worldOf (await (createTask l (taskDataOf X d) (say x v)) ?K))
           [MakeItem (X @ '': '' @ title (metadata d))]"
    unfolding 2 using pf by simp
qed

lemma live_syncSubtask:
  assumes u: "uniqueIds v" and r: "returned (syncSubtask l p X specs False v)"
  shows "keeps [X @ '':''] v (worldOf (syncSubtask l p X specs False v))"
    and "performs v (worldOf (syncSubtask l p X specs False v)) (itemPlan l X specs v)"
proof -
  have "keeps [X @ '':''] v (worldOf (syncSubtask l p X specs False v))
      \<and> performs v (worldOf (syncSubtask l p X specs False v)) (itemPlan l X specs v)"
  proof (cases "specs X")
    case None
    then show ?thesis using u by (simp add: syncSubtask_def itemPlan_def keeps_refl)
  next
    case (Some d)
    show ?thesis
    proof (cases "findSubtaskByCustomId l X v")
      case None
      have r': "returned (await (createTask l (taskDataOf X d)
                                   (say (CreatingItem Subtask X (title (metadata d))) v))
                        (\<lambda>t w1. await (updateTask (task_id t) (setParent p) (say (TimeEstimateLine Subtask) w1))
                                  (\<lambda>_ w2. Ret () (writeBack X (task_id t)
                                      (say (CreatedItem Subtask (task_id t)) w2)))))"
        using r Some None by (simp add: syncSubtask_def Let_def)
      show ?thesis
        using live_create [OF u r'] Some None
        by (simp add: syncSubtask_def itemPlan_def Let_def)
    next
      case (Some e)
      have f: "findTaskByCustomId l X v = Some e"
        using Some by (simp add: findSubtask_eq)
      have r': "returned (await (reconcileName Subtask e (X @ '': '' @ title (metadata d)) False
                                   (say (ItemExists Subtask X (title (metadata d))) v))
                        (\<lambda>_. reconcileStatus Subtask e (mapStatusToClickUp (status (metadata d))) False))"
        using r Some \<open>specs X = Some d\<close> by (simp add: syncSubtask_def Let_def)
      show ?thesis
        using live_body [OF u f r'] Some \<open>specs X = Some d\<close>
        by (simp add: syncSubtask_def itemPlan_def Let_def)
    qed
  qed
  then show "keeps [X @ '':''] v (worldOf (syncSubtask l p X specs False v))"
    and "performs v (worldOf (syncSubtask l p X specs False v)) (itemPlan l X specs v)"
    by simp_all
qed

lemma live_syncExtension:
  assumes u: "uniqueIds v" and r: "returned (syncExtension l p X specs False v)"
  shows "keeps [X @ '':''] v (worldOf (syncExtension l p X specs False v))"
    and "performs v (worldOf (syncExtension l p X specs False v)) (itemPlan l X specs v)"
proof -
  have "keeps [X @ '':''] v (worldOf (syncExtension l p X specs False v))
      \<and> performs v (worldOf (syncExtension l p X specs False v)) (itemPlan l X specs v)"
  proof (cases "specs X")
    case None
    then show ?thesis using u by (simp add: syncExtension_def itemPlan_def keeps_refl)
  next
    case (Some d)
    show ?thesis
    proof (cases "findSubtaskByCustomId l X v")
      case None
      have r': "returned (await (createTask l (taskDataOf X d)
                                   (say (CreatingItem Extension X (title (metadata d))) v))
                        (\<lambda>t w1. await (updateTask (task_id t) (setParent p) (say (TimeEstimateLine Extension) w1))
                                  (\<lambda>_ w2. Ret () (writeBack X (task_id t)
                                      (say (CreatedItem Extension (task_id t)) w2)))))"
        using r Some None by (simp add: syncExtension_def Let_def)
      show ?thesis
        using live_create [OF u r'] Some None
        by (simp add: syncExtension_def itemPlan_def Let_def)
    next
      case (Some e)
      have f: "findTaskByCustomId l X v = Some e"
        using Some by (simp add: findSubtask_eq)
      have r': "returned (await (reconcileName Extension e (X @ '': '' @ title (metadata d)) False
                                   (say (ItemExists Extension X (title (metadata d))) v))
                        (\<lambda>_. reconcileStatus Extension e (mapStatusToClickUp (status (metadata d))) False))"
        using r Some \<open>specs X = Some d\<close> by (simp add: syncExtension_def Let_def)
      show ?thesis
        using live_body [OF u f r'] Some \<open>specs X = Some d\<close>
        by (simp add: syncExtension_def itemPlan_def Let_def)
    qed
  qed
  then show "keeps [X @ '':''] v (worldOf (syncExtension l p X specs False v))"
    and "performs v (worldOf (syncExtension l p X specs False v)) (itemPlan l X specs v)"
    by simp_all
qed

subsection \<open>Identifiers that cannot be confused\<close>

lemma segment_plain:
  assumes "segment k n" and "k \<noteq> CHR '':''" and "k \<noteq> CHR ''-''"
  shows "plain n"
proof -
  obtain ds where n: "n = k # ds" "list_all is_digit ds"
    using assms(1) by (cases n) (auto simp: segment_def)
  have "c \<noteq> CHR '':'' \<and> c \<noteq> CHR ''-''" if "is_digit c" for c
    using that by (auto simp: is_digit_def)
  then show ?thesis
    using n assms(2,3) by (auto simp: plain_def list_all_iff)
qed

lemma head_of:
  assumes "plain a" and "d = CHR '':'' \<or> d = CHR ''-''"
  shows "takeWhile (\<lambda>c. c \<noteq> CHR '':'' \<and> c \<noteq> CHR ''-'') (a @ d # r) = a"
proof -
  have "takeWhile (\<lambda>c. c \<noteq> CHR '':'' \<and> c \<noteq> CHR ''-'') (a @ d # r)
          = a @ takeWhile (\<lambda>c. c \<noteq> CHR '':'' \<and> c \<noteq> CHR ''-'') (d # r)"
    using assms(1) by (intro takeWhile_append2) (simp add: plain_def list_all_iff)
  then show ?thesis using assms(2) by auto
qed

lemma heads_apart:
  assumes "a \<noteq> b" and "plain a" and "plain b"
    and "d = CHR '':'' \<or> d = CHR ''-''" and "e = CHR '':'' \<or> e = CHR ''-''"
  shows "\<not> comparable (P @ a @ d # r) (P @ b @ e # s)"
proof
  assume "comparable (P @ a @ d # r) (P @ b @ e # s)"
  then consider z where "P @ a @ d # r = (P @ b @ e # s) @ z"
    | z where "P @ b @ e # s = (P @ a @ d # r) @ z"
    unfolding comparable_def startsWith_iff by blast
  then show False
  proof cases
    case 1
    then have "a @ d # r = b @ e # (s @ z)" by simp
    then have "takeWhile (\<lambda>c. c \<noteq> CHR '':'' \<and> c \<noteq> CHR ''-'') (a @ d # r)
             = takeWhile (\<lambda>c. c \<noteq> CHR '':'' \<and> c \<noteq> CHR ''-'') (b @ e # (s @ z))"
      by simp
    then show False
      using head_of [OF assms(2,4)] head_of [OF assms(3,5)] assms(1) by simp
  next
    case 2
    then have "b @ e # s = a @ d # (r @ z)" by simp
    then have "takeWhile (\<lambda>c. c \<noteq> CHR '':'' \<and> c \<noteq> CHR ''-'') (b @ e # s)
             = takeWhile (\<lambda>c. c \<noteq> CHR '':'' \<and> c \<noteq> CHR ''-'') (a @ d # (r @ z))"
      by simp
    then show False
      using head_of [OF assms(2,4)] head_of [OF assms(3,5)] assms(1) by simp
  qed
qed

lemma colon_dash_apart: "\<not> comparable (X @ '':'') ((X @ ''-'' @ r) @ '':'')"
  unfolding comparable_def startsWith_iff by auto

lemma under_cases: "under X Y \<Longrightarrow> Y = X \<or> (\<exists>r. Y = X @ ''-'' @ r)"
  unfolding under_def startsWith_iff by auto

lemma under_refl [simp]: "under X X"
  by (simp add: under_def)

lemma under_child [simp]: "under X (X @ ''-'' @ r)"
  by (simp add: under_def startsWith_def)

lemma under_trans: "under X Y \<Longrightarrow> under Y Z \<Longrightarrow> under X Z"
  unfolding under_def startsWith_iff by auto

text \<open>The families of two siblings.\<close>

lemma family_apart:
  assumes "a \<noteq> b" and "plain a" and "plain b" and "under (P @ b) Y"
  shows "\<not> comparable (P @ a @ '':'') (Y @ '':'')"
    and "\<not> comparable (P @ a @ ''-'') (Y @ '':'')"
proof -
  from under_cases [OF assms(4)]
  consider "Y = P @ b" | r where "Y = P @ b @ ''-'' @ r" by auto
  then have "\<not> comparable (P @ a @ '':'') (Y @ '':'') \<and> \<not> comparable (P @ a @ ''-'') (Y @ '':'')"
  proof cases
    case 1
    show ?thesis
      using heads_apart [OF assms(1-3), of "CHR '':''" "CHR '':''" P "[]" "[]"]
        heads_apart [OF assms(1-3), of "CHR ''-''" "CHR '':''" P "[]" "[]"]
      by (simp add: 1)
  next
    case 2
    show ?thesis
      using heads_apart [OF assms(1-3), of "CHR '':''" "CHR ''-''" P "[]" "r @ '':''"]
        heads_apart [OF assms(1-3), of "CHR ''-''" "CHR ''-''" P "[]" "r @ '':''"]
      by (simp add: 2)
  qed
  then show "\<not> comparable (P @ a @ '':'') (Y @ '':'')"
    and "\<not> comparable (P @ a @ ''-'') (Y @ '':'')"
    by simp_all
qed

subsection \<open>The directories below a directory\<close>

lemma childDirs_form:
  "x \<in> set (childDirs k P es) \<Longrightarrow> \<exists>n. x = P @ ''-'' @ n \<and> segment k n"
  by (auto simp: childDirs_def)

lemma childDirs_distinct: "distinct es \<Longrightarrow> distinct (childDirs k P es)"
  unfolding childDirs_def
  by (simp add: distinct_map inj_on_def)

lemma subtaskDirsOf_seg:
  "x \<in> set (subtaskDirsOf X v) \<Longrightarrow> \<exists>n. x = X @ ''-'' @ n \<and> plain n"
  by (auto simp: subtaskDirsOf_def split: option.splits dest!: childDirs_form
      intro: segment_plain)

lemma taskDirsOf_seg:
  "x \<in> set (taskDirsOf F v) \<Longrightarrow> \<exists>n. x = F @ ''-'' @ n \<and> plain n"
  by (auto simp: taskDirsOf_def split: option.splits dest!: childDirs_form
      intro: segment_plain)

lemma featureDirsOf_seg:
  "x \<in> set (featureDirsOf E v) \<Longrightarrow> \<exists>n. x = E @ ''-'' @ n \<and> plain n"
  by (auto simp: featureDirsOf_def split: option.splits dest!: childDirs_form
      intro: segment_plain)

lemma dirs_distinct:
  assumes "dirsDistinct v"
  shows "distinct (subtaskDirsOf X v)" and "distinct (taskDirsOf F v)"
    and "distinct (featureDirsOf E v)"
  using assms
  by (auto simp: dirsDistinct_def subtaskDirsOf_def taskDirsOf_def featureDirsOf_def
      split: option.splits intro!: childDirs_distinct)

lemma dirs_cong:
  assumes "dirs v' = dirs v"
  shows "subtaskDirsOf X v' = subtaskDirsOf X v" and "taskDirsOf F v' = taskDirsOf F v"
    and "featureDirsOf E v' = featureDirsOf E v" and "dirsDistinct v' = dirsDistinct v"
  using assms
  by (simp_all add: dirsDistinct_def subtaskDirsOf_def taskDirsOf_def featureDirsOf_def
      cong: option.case_cong)

subsection \<open>Loops\<close>

lemma onlyOutput_trans: "onlyOutput a b \<Longrightarrow> onlyOutput b c \<Longrightarrow> onlyOutput a c"
  by (cases a; cases b; cases c) (auto simp: onlyOutput_def)

lemma dry_loop:
  assumes step: "\<And>x v. announces v (worldOf (g x v)) (plan x v) \<and> returned (g x v)
                        \<and> onlyOutput v (worldOf (g x v))"
    and indep: "\<And>x v v'. onlyOutput v v' \<Longrightarrow> plan x v' = plan x v"
  shows "announces v (worldOf (forEach g xs v)) (concat (map (\<lambda>x. plan x v) xs))
       \<and> returned (forEach g xs v) \<and> onlyOutput v (worldOf (forEach g xs v))"
proof (induction xs arbitrary: v)
  case Nil
  show ?case by simp
next
  case (Cons x xs)
  have rx: "returned (g x v)" using step [where x = x and v = v] by simp
  then obtain q v1 where 1: "g x v = Ret q v1" by (cases "g x v") simp_all
  have v1: "v1 = worldOf (g x v)" using 1 by simp
  have f: "forEach g (x # xs) v = forEach g xs v1"
    using 1 by (simp add: await_def)
  have o1: "onlyOutput v v1" and a1: "announces v v1 (plan x v)"
    using step [where x = x and v = v] unfolding v1 by simp_all
  have same: "map (\<lambda>y. plan y v1) xs = map (\<lambda>y. plan y v) xs"
    using indep [OF o1] by simp
  have IH: "announces v1 (worldOf (forEach g xs v1)) (concat (map (\<lambda>x. plan x v1) xs))"
    "returned (forEach g xs v1)" "onlyOutput v1 (worldOf (forEach g xs v1))"
    using Cons.IH [of v1] by simp_all
  have "announces v (worldOf (forEach g xs v1)) (plan x v @ concat (map (\<lambda>y. plan y v) xs))"
    using announces_trans [OF a1 IH(1)] unfolding same .
  moreover have "onlyOutput v (worldOf (forEach g xs v1))"
    using o1 IH(3) by (rule onlyOutput_trans)
  ultimately show ?case
    unfolding f using IH(2) by simp
qed

lemma live_loop:
  assumes step: "\<And>x v. x \<in> set xs \<Longrightarrow> uniqueIds v \<Longrightarrow> C x v \<Longrightarrow> returned (f x v)
                   \<Longrightarrow> keeps (reg x) v (worldOf (f x v)) \<and> performs v (worldOf (f x v)) (plan x v)"
    and indep: "\<And>x y v v'. x \<in> set xs \<Longrightarrow> y \<in> set xs \<Longrightarrow> x \<noteq> y \<Longrightarrow> keeps (reg x) v v'
                   \<Longrightarrow> C y v \<Longrightarrow> plan y v' = plan y v \<and> C y v'"
    and cov: "\<And>x. x \<in> set xs \<Longrightarrow> covers R (reg x)"
    and d: "distinct xs" and u: "uniqueIds v" and c: "\<forall>x\<in>set xs. C x v"
    and r: "returned (forEach f xs v)"
  shows "keeps R v (worldOf (forEach f xs v))
       \<and> performs v (worldOf (forEach f xs v)) (concat (map (\<lambda>x. plan x v) xs))"
  using assms
proof (induction xs arbitrary: v)
  case Nil
  then show ?case by (simp add: keeps_refl)
next
  case (Cons x xs)
  have "returned (await (f x v) (\<lambda>_. forEach f xs))"
    using Cons.prems(7) by simp
  then obtain q v1 where 1: "f x v = Ret q v1"
    and eq2: "await (f x v) (\<lambda>_. forEach f xs) = forEach f xs v1"
    and 3: "returned (forEach f xs v1)"
    by (rule returned_awaitE)
  have 2: "forEach f (x # xs) v = forEach f xs v1"
    using eq2 by simp
  have v1: "v1 = worldOf (f x v)" using 1 by simp
  have rx: "returned (f x v)" using 1 by simp
  have sx: "keeps (reg x) v v1" "performs v v1 (plan x v)"
    using Cons.prems(1) [where x = x and v = v] Cons.prems(5,6) rx unfolding v1 by simp_all
  have kx: "keeps R v v1"
    using sx(1) Cons.prems(3) [of x] by (auto intro: keeps_covers)
  have u1: "uniqueIds v1" using sx(1) by (rule keeps_unique)
  have ne: "x \<noteq> y" if "y \<in> set xs" for y
    using Cons.prems(4) that by auto
  have ind: "plan y v1 = plan y v \<and> C y v1" if "y \<in> set xs" for y
    using Cons.prems(2) [where x = x and y = y and v = v and v' = v1] that ne sx(1) Cons.prems(6) by simp
  have IH: "keeps R v1 (worldOf (forEach f xs v1))
       \<and> performs v1 (worldOf (forEach f xs v1)) (concat (map (\<lambda>x. plan x v1) xs))"
  proof (rule Cons.IH)
    show "keeps (reg y) w (worldOf (f y w)) \<and> performs w (worldOf (f y w)) (plan y w)"
      if "y \<in> set xs" "uniqueIds w" "C y w" "returned (f y w)" for y w
      using Cons.prems(1) [where x = y and v = w] that by simp
    show "plan z w' = plan z w \<and> C z w'"
      if "y \<in> set xs" "z \<in> set xs" "y \<noteq> z" "keeps (reg y) w w'" "C z w" for y z w w'
      using Cons.prems(2) [where x = y and y = z and v = w and v' = w'] that by simp
    show "covers R (reg y)" if "y \<in> set xs" for y
      using Cons.prems(3) [of y] that by simp
    show "distinct xs" using Cons.prems(4) by simp
    show "uniqueIds v1" by (rule u1)
    show "\<forall>y\<in>set xs. C y v1" using ind by simp
    show "returned (forEach f xs v1)" by (rule 3)
  qed
  have same: "map (\<lambda>y. plan y v1) xs = map (\<lambda>y. plan y v) xs"
    using ind by simp
  have "keeps R v (worldOf (forEach f xs v1))"
    using kx IH by (auto intro: keeps_trans)
  moreover have "performs v (worldOf (forEach f xs v1)) (plan x v @ concat (map (\<lambda>y. plan y v) xs))"
    using sx(2) IH unfolding same by (auto intro: performs_trans)
  ultimately show ?case
    unfolding 2 by simp
qed

lemma onlyOutput_fields:
  assumes "onlyOutput v v'"
  shows "tasks v' = tasks v" "dirs v' = dirs v" "lists v' = lists v" "folders v' = folders v"
    "calls v' = calls v" "idSupply v' = idSupply v"
proof -
  have e: "v' = v\<lparr> out := out v' \<rparr>" using assms by (simp add: onlyOutput_def)
  show "tasks v' = tasks v" by (subst e) simp
  show "dirs v' = dirs v" by (subst e) simp
  show "lists v' = lists v" by (subst e) simp
  show "folders v' = folders v" by (subst e) simp
  show "calls v' = calls v" by (subst e) simp
  show "idSupply v' = idSupply v" by (subst e) simp
qed

lemma lookup_tasks_cong:
  "tasks v' = tasks v \<Longrightarrow> findTaskByCustomId l X v' = findTaskByCustomId l X v"
  by (simp add: findTaskByCustomId_def getTasks_def)

lemma itemPlan_cong:
  "findTaskByCustomId l X v' = findTaskByCustomId l X v
   \<Longrightarrow> itemPlan l X specs v' = itemPlan l X specs v"
  by (simp add: itemPlan_def findSubtask_eq cong: option.case_cong)

lemma taskPlan_cong:
  assumes "dirs v' = dirs v"
    and "\<And>Y. under X Y \<Longrightarrow> findTaskByCustomId l Y v' = findTaskByCustomId l Y v"
  shows "taskPlan l X specs v' = taskPlan l X specs v"
    and "taskPresent l specs v' X = taskPresent l specs v X"
proof -
  have ds: "subtaskDirsOf X v' = subtaskDirsOf X v"
    using assms(1) by (rule dirs_cong)
  have own: "findTaskByCustomId l X v' = findTaskByCustomId l X v"
    using assms(2) by simp
  have "itemPlan l s specs v' = itemPlan l s specs v" if s: "s \<in> set (subtaskDirsOf X v)" for s
  proof -
    obtain n where n: "s = X @ ''-'' @ n" using s subtaskDirsOf_form by blast
    have "under X s" unfolding n by (rule under_child)
    then show ?thesis by (intro itemPlan_cong assms(2))
  qed
  then have items: "map (\<lambda>s. itemPlan l s specs v') (subtaskDirsOf X v)
                  = map (\<lambda>s. itemPlan l s specs v) (subtaskDirsOf X v)"
    by simp
  show "taskPlan l X specs v' = taskPlan l X specs v"
    unfolding taskPlan_def ds own items ..
  show "taskPresent l specs v' X = taskPresent l specs v X"
    unfolding taskPresent_def own ..
qed

lemma itemPlan_dry: "onlyOutput v v' \<Longrightarrow> itemPlan l X specs v' = itemPlan l X specs v"
  by (intro itemPlan_cong lookup_tasks_cong) (rule onlyOutput_fields)

lemma taskPlan_dry:
  assumes "onlyOutput v v'"
  shows "taskPlan l X specs v' = taskPlan l X specs v"
    and "taskPresent l specs v' X = taskPresent l specs v X"
proof -
  have t: "findTaskByCustomId l Y v' = findTaskByCustomId l Y v" for Y
    using onlyOutput_fields(1) [OF assms] by (rule lookup_tasks_cong)
  show "taskPlan l X specs v' = taskPlan l X specs v"
    using onlyOutput_fields(2) [OF assms] t by (rule taskPlan_cong)
  show "taskPresent l specs v' X = taskPresent l specs v X"
    using onlyOutput_fields(2) [OF assms] t by (rule taskPlan_cong)
qed

subsection \<open>Dry run of a task\<close>

lemma dry_syncTask_plan:
  "announces v (worldOf (syncTask l X specs True v)) (taskPlan l X specs v)
   \<and> returned (syncTask l X specs True v)"
proof (cases "specs X")
  case None
  then show ?thesis
    by (simp add: syncTask_def taskPlan_def announces_def say_def List.map_filter_def announced_def)
next
  case (Some d)
  show ?thesis
  proof (cases "findTaskByCustomId l X v")
    case None
    then show ?thesis using Some
      by (simp add: syncTask_def taskPlan_def announces_def say_def List.map_filter_def
          announced_def Let_def)
  next
    case (Some e)
    let ?nm = "X @ '': '' @ title (metadata d)"
    let ?ds = "subtaskDirsOf X v"
    let ?tg = "targetStatus specs (metadata d) ?ds"
    let ?v0 = "say (ItemExists Task X (title (metadata d))) v"
    define v1 where "v1 = worldOf (reconcileName Task e ?nm True ?v0)"
    define v2 where "v2 = worldOf (forEach (\<lambda>s. syncSubtask l (task_id e) s specs True) ?ds v1)"
    define v2' where "v2' = (if promotes specs (metadata d) ?ds
                             then say (PromotingParent (length ?ds)) v2 else v2)"
    have a0: "announces v ?v0 []"
      using announces_say [OF announces_refl, of v "ItemExists Task X (title (metadata d))"]
      by (simp add: announced_def)
    have r1: "reconcileName Task e ?nm True ?v0 = Ret () v1"
      unfolding v1_def using dry_returns_reconcileName by (rule returned_Ret)
    have a1: "announces v v1 (renamePlan e ?nm)"
      unfolding v1_def using announces_trans [OF a0 dry_reconcileName_plan] by simp
    have o1: "onlyOutput v v1"
      unfolding v1_def by (rule dry_reconcileName) simp
    have ds: "subtaskDirsOf X v1 = ?ds"
      using onlyOutput_fields(2) [OF o1] by (rule dirs_cong)
    have lp: "announces v1 (worldOf (forEach (\<lambda>s. syncSubtask l (task_id e) s specs True) ?ds v1))
                (concat (map (\<lambda>s. itemPlan l s specs v1) ?ds))
            \<and> returned (forEach (\<lambda>s. syncSubtask l (task_id e) s specs True) ?ds v1)
            \<and> onlyOutput v1 (worldOf (forEach (\<lambda>s. syncSubtask l (task_id e) s specs True) ?ds v1))"
    proof (rule dry_loop)
      show "announces u (worldOf (syncSubtask l (task_id e) s specs True u)) (itemPlan l s specs u)
          \<and> returned (syncSubtask l (task_id e) s specs True u)
          \<and> onlyOutput u (worldOf (syncSubtask l (task_id e) s specs True u))" for s u
        using dry_syncSubtask_plan [of u l "task_id e" s specs]
          dry_syncSubtask [of u u l "task_id e" s specs] by simp
      show "itemPlan l s specs u' = itemPlan l s specs u" if "onlyOutput u u'" for s u u'
        using that by (rule itemPlan_dry)
    qed
    have items: "map (\<lambda>s. itemPlan l s specs v1) ?ds = map (\<lambda>s. itemPlan l s specs v) ?ds"
      using itemPlan_dry [OF o1] by simp
    have r2: "forEach (\<lambda>s. syncSubtask l (task_id e) s specs True) ?ds v1 = Ret () v2"
      unfolding v2_def using lp by (simp add: returned_Ret)
    have a2: "announces v v2 (renamePlan e ?nm @ concat (map (\<lambda>s. itemPlan l s specs v) ?ds))"
      unfolding v2_def using announces_trans [OF a1 conjunct1 [OF lp]] unfolding items .
    have a2': "announces v v2' (renamePlan e ?nm @ concat (map (\<lambda>s. itemPlan l s specs v) ?ds))"
      unfolding v2'_def using a2 announces_say [OF a2, of "PromotingParent (length ?ds)"]
      by (simp add: announced_def)
    have a3: "announces v (worldOf (reconcileStatus Task e ?tg True v2'))
                ((renamePlan e ?nm @ concat (map (\<lambda>s. itemPlan l s specs v) ?ds))
                 @ restatusPlan e ?tg)"
      using a2' dry_reconcileStatus_plan by (rule announces_trans)
    have "syncTask l X specs True v
          = await (reconcileName Task e ?nm True ?v0)
              (\<lambda>_ w1. await (forEach (\<lambda>s. syncSubtask l (task_id e) s specs True)
                                 (subtaskDirsOf X w1) w1)
                         (\<lambda>_ w2. reconcileStatus Task e
                                     (targetStatus specs (metadata d) (subtaskDirsOf X w1)) True
                                     (if promotes specs (metadata d) (subtaskDirsOf X w1)
                                      then say (PromotingParent (length (subtaskDirsOf X w1))) w2
                                      else w2)))"
      using Some \<open>specs X = Some d\<close> by (simp add: syncTask_def Let_def)
    also have "\<dots> = await (forEach (\<lambda>s. syncSubtask l (task_id e) s specs True) ?ds v1)
                         (\<lambda>_ w2. reconcileStatus Task e ?tg True
                                     (if promotes specs (metadata d) ?ds
                                      then say (PromotingParent (length ?ds)) w2
                                      else w2))"
      unfolding r1 by (simp only: await_def res.case ds)
    also have "\<dots> = reconcileStatus Task e ?tg True v2'"
      unfolding r2 v2'_def by (simp only: await_def res.case)
    finally have unf: "syncTask l X specs True v = reconcileStatus Task e ?tg True v2'" .
    show ?thesis
      unfolding unf using a3 dry_returns_reconcileStatus Some \<open>specs X = Some d\<close>
      by (simp add: taskPlan_def)
  qed
qed

lemma startsWith_refl [simp]: "startsWith p p"
  by (simp add: startsWith_def)

lemma covers_family [simp]:
  "covers [X @ '':'', X @ ''-''] [X @ '':'']" "covers [X @ '':'', X @ ''-''] [X @ ''-'']"
  by (simp_all add: covers_def)

lemma covers_child: "covers [X @ ''-''] [(X @ ''-'' @ n) @ '':'']"
  by (simp add: covers_def startsWith_def)

lemma covers_child2: "covers [X @ ''-''] [(X @ ''-'' @ n) @ '':'', (X @ ''-'' @ n) @ ''-'']"
  by (simp add: covers_def startsWith_def)

lemma keeps_lookup1:
  assumes "keeps [p] v v'" and "\<not> comparable p (Y @ '':'')"
  shows "findTaskByCustomId l Y v' = findTaskByCustomId l Y v"
  using assms(1) by (rule keeps_lookup) (simp add: assms(2))

lemma keeps_lookup2:
  assumes "keeps [p, q] v v'" and "\<not> comparable p (Y @ '':'')" and "\<not> comparable q (Y @ '':'')"
  shows "findTaskByCustomId l Y v' = findTaskByCustomId l Y v"
  using assms(1) by (rule keeps_lookup) (simp add: assms(2,3))

lemma keeps_dirs: "keeps ps v v' \<Longrightarrow> dirs v' = dirs v"
  by (simp add: keeps_def)

lemma siblings_apart:
  assumes "x = P @ ''-'' @ a" and "y = P @ ''-'' @ b" and "x \<noteq> y" and "plain a" and "plain b"
    and "under y Y"
  shows "\<not> comparable (x @ '':'') (Y @ '':'')" and "\<not> comparable (x @ ''-'') (Y @ '':'')"
proof -
  have ne: "a \<noteq> b" using assms(1-3) by auto
  have un: "under ((P @ ''-'') @ b) Y" using assms(2,6) by simp
  show "\<not> comparable (x @ '':'') (Y @ '':'')"
    using family_apart(1) [OF ne assms(4,5) un] by (simp add: assms(1))
  show "\<not> comparable (x @ ''-'') (Y @ '':'')"
    using family_apart(2) [OF ne assms(4,5) un] by (simp add: assms(1))
qed

subsection \<open>Live run of a task that exists\<close>

lemma live_subtasks:
  assumes u: "uniqueIds v" and dd: "dirsDistinct v"
    and r: "returned (forEach (\<lambda>s. syncSubtask l p s specs False) (subtaskDirsOf X v) v)"
  shows "keeps [X @ ''-''] v
           (worldOf (forEach (\<lambda>s. syncSubtask l p s specs False) (subtaskDirsOf X v) v))"
    and "performs v
           (worldOf (forEach (\<lambda>s. syncSubtask l p s specs False) (subtaskDirsOf X v) v))
           (concat (map (\<lambda>s. itemPlan l s specs v) (subtaskDirsOf X v)))"
proof -
  let ?ds = "subtaskDirsOf X v"
  have "keeps [X @ ''-''] v (worldOf (forEach (\<lambda>s. syncSubtask l p s specs False) ?ds v))
      \<and> performs v (worldOf (forEach (\<lambda>s. syncSubtask l p s specs False) ?ds v))
          (concat (map (\<lambda>s. itemPlan l s specs v) ?ds))"
  proof (rule live_loop [where C = "\<lambda>_ _. True" and reg = "\<lambda>s. [s @ '':'']"
        and f = "\<lambda>s. syncSubtask l p s specs False" and plan = "\<lambda>s w. itemPlan l s specs w"
        and R = "[X @ ''-'']" and xs = "subtaskDirsOf X v" and v = v])
    show "keeps [s @ '':''] w (worldOf (syncSubtask l p s specs False w))
        \<and> performs w (worldOf (syncSubtask l p s specs False w)) (itemPlan l s specs w)"
      if "uniqueIds w" "returned (syncSubtask l p s specs False w)" for s w
      using live_syncSubtask [OF that] by simp
    show "itemPlan l y specs w' = itemPlan l y specs w \<and> True"
      if x: "x \<in> set ?ds" and y: "y \<in> set ?ds" and ne: "x \<noteq> y" and k: "keeps [x @ '':''] w w'"
      for x y w w'
    proof -
      obtain a where a: "x = X @ ''-'' @ a" "plain a" using x subtaskDirsOf_seg by blast
      obtain b where b: "y = X @ ''-'' @ b" "plain b" using y subtaskDirsOf_seg by blast
      have "\<not> comparable (x @ '':'') (y @ '':'')"
        using siblings_apart(1) [OF a(1) b(1) ne a(2) b(2) under_refl] .
      then have "findTaskByCustomId l y w' = findTaskByCustomId l y w"
        using k by (intro keeps_lookup1)
      then have "itemPlan l y specs w' = itemPlan l y specs w" by (rule itemPlan_cong)
      then show ?thesis by simp
    qed
    show "covers [X @ ''-''] [s @ '':'']" if s: "s \<in> set ?ds" for s
    proof -
      obtain a where "s = X @ ''-'' @ a" using s subtaskDirsOf_form by blast
      then show ?thesis using covers_child by simp
    qed
    show "distinct ?ds" using dd by (rule dirs_distinct)
    show "uniqueIds v" by (rule u)
    show "\<forall>s\<in>set ?ds. True" by simp
    show "returned (forEach (\<lambda>s. syncSubtask l p s specs False) ?ds v)" by (rule r)
  qed
  then show "keeps [X @ ''-''] v (worldOf (forEach (\<lambda>s. syncSubtask l p s specs False) ?ds v))"
    and "performs v (worldOf (forEach (\<lambda>s. syncSubtask l p s specs False) ?ds v))
          (concat (map (\<lambda>s. itemPlan l s specs v) ?ds))"
    by simp_all
qed

lemma live_syncTask:
  assumes u: "uniqueIds v" and dd: "dirsDistinct v" and pr: "taskPresent l specs v X"
    and r: "returned (syncTask l X specs False v)"
  shows "keeps [X @ '':'', X @ ''-''] v (worldOf (syncTask l X specs False v))"
    and "performs v (worldOf (syncTask l X specs False v)) (taskPlan l X specs v)"
proof -
  let ?fam = "[X @ '':'', X @ ''-'']"
  have "keeps ?fam v (worldOf (syncTask l X specs False v))
      \<and> performs v (worldOf (syncTask l X specs False v)) (taskPlan l X specs v)"
  proof (cases "specs X")
    case None
    then show ?thesis using u by (simp add: syncTask_def taskPlan_def keeps_refl)
  next
    case (Some d)
    then obtain e where e: "findTaskByCustomId l X v = Some e"
      using pr by (auto simp: taskPresent_def)
    let ?nm = "X @ '': '' @ title (metadata d)"
    let ?ds = "subtaskDirsOf X v"
    let ?tg = "targetStatus specs (metadata d) ?ds"
    let ?v0 = "say (ItemExists Task X (title (metadata d))) v"
    let ?K2 = "\<lambda>w2. reconcileStatus Task e ?tg False
                       (if promotes specs (metadata d) ?ds
                        then say (PromotingParent (length ?ds)) w2 else w2)"
    let ?K1 = "\<lambda>w1. await (forEach (\<lambda>s. syncSubtask l (task_id e) s specs False)
                                 (subtaskDirsOf X w1) w1)
                         (\<lambda>_ w2. reconcileStatus Task e
                                     (targetStatus specs (metadata d) (subtaskDirsOf X w1)) False
                                     (if promotes specs (metadata d) (subtaskDirsOf X w1)
                                      then say (PromotingParent (length (subtaskDirsOf X w1))) w2
                                      else w2))"
    have unf: "syncTask l X specs False v
          = await (reconcileName Task e ?nm False ?v0) (\<lambda>_. ?K1)"
      using Some e by (simp add: syncTask_def Let_def)
    have "returned (await (reconcileName Task e ?nm False ?v0) (\<lambda>_. ?K1))"
      using r unfolding unf .
    then obtain q1 v1 where rn: "reconcileName Task e ?nm False ?v0 = Ret q1 v1"
      and eq1: "await (reconcileName Task e ?nm False ?v0) (\<lambda>_. ?K1) = ?K1 v1"
      and ret1: "returned (?K1 v1)"
      by (rule returned_awaitE)
    have v1: "v1 = worldOf (reconcileName Task e ?nm False ?v0)" using rn by simp
    have o0: "owned (task_id e) [X @ '':''] ?v0"
      using found_owned [OF e u] by simp
    have u0: "uniqueIds ?v0" using u by simp
    have n: "list_ex (startsWith ?nm) [X @ '':'']" by (simp add: startsWith_def)
    have k1: "keeps [X @ '':''] v v1" and o1: "owned (task_id e) [X @ '':''] v1"
      and p1: "performs v v1 (renamePlan e ?nm)"
      using live_reconcileName [OF u0 o0 n, of Task] unfolding v1 by simp_all
    have u1: "uniqueIds v1" using k1 by (rule keeps_unique)
    have d1: "dirs v1 = dirs v" using k1 by (rule keeps_dirs)
    have ds1: "subtaskDirsOf X v1 = ?ds" using d1 by (rule dirs_cong)
    have dd1: "dirsDistinct v1" using dd dirs_cong(4) [OF d1] by simp
    have K1: "?K1 v1 = await (forEach (\<lambda>s. syncSubtask l (task_id e) s specs False) ?ds v1)
                         (\<lambda>_. ?K2)"
      unfolding ds1 ..
    have "returned (await (forEach (\<lambda>s. syncSubtask l (task_id e) s specs False) ?ds v1)
                         (\<lambda>_. ?K2))"
      using ret1 unfolding K1 .
    then obtain q2 v2 where lp: "forEach (\<lambda>s. syncSubtask l (task_id e) s specs False) ?ds v1 = Ret q2 v2"
      and eq2: "await (forEach (\<lambda>s. syncSubtask l (task_id e) s specs False) ?ds v1) (\<lambda>_. ?K2)
                  = ?K2 v2"
      by (rule returned_awaitE)
    have v2: "v2 = worldOf (forEach (\<lambda>s. syncSubtask l (task_id e) s specs False)
                              (subtaskDirsOf X v1) v1)"
      using lp unfolding ds1 by simp
    have rl: "returned (forEach (\<lambda>s. syncSubtask l (task_id e) s specs False)
                              (subtaskDirsOf X v1) v1)"
      using lp unfolding ds1 by simp
    have k2: "keeps [X @ ''-''] v1 v2"
      and p2: "performs v1 v2 (concat (map (\<lambda>s. itemPlan l s specs v1) (subtaskDirsOf X v1)))"
      using live_subtasks [OF u1 dd1 rl] unfolding v2 by simp_all
    have "itemPlan l s specs v1 = itemPlan l s specs v" if s: "s \<in> set ?ds" for s
    proof -
      obtain a where a: "s = X @ ''-'' @ a" using s subtaskDirsOf_form by blast
      have "\<not> comparable (X @ '':'') (s @ '':'')"
        unfolding a by (rule colon_dash_apart)
      then have "findTaskByCustomId l s v1 = findTaskByCustomId l s v"
        using k1 by (intro keeps_lookup1)
      then show ?thesis by (rule itemPlan_cong)
    qed
    then have items: "map (\<lambda>s. itemPlan l s specs v1) ?ds = map (\<lambda>s. itemPlan l s specs v) ?ds"
      by simp
    have p2': "performs v1 v2 (concat (map (\<lambda>s. itemPlan l s specs v) ?ds))"
      using p2 unfolding ds1 items .
    have u2: "uniqueIds v2" using k2 by (rule keeps_unique)
    have o2: "owned (task_id e) ?fam v2"
      using owned_keeps [OF o1 k2] by simp
    define v2' where "v2' = (if promotes specs (metadata d) ?ds
                             then say (PromotingParent (length ?ds)) v2 else v2)"
    have u2': "uniqueIds v2'" and o2': "owned (task_id e) ?fam v2'"
      using u2 o2 by (simp_all add: v2'_def)
    have k3': "keeps ?fam v2' (worldOf (reconcileStatus Task e ?tg False v2'))"
      and p3': "performs v2' (worldOf (reconcileStatus Task e ?tg False v2')) (restatusPlan e ?tg)"
      using live_reconcileStatus [OF u2' o2'] by simp_all
    have k3: "keeps ?fam v2 (worldOf (reconcileStatus Task e ?tg False v2'))"
      and p3: "performs v2 (worldOf (reconcileStatus Task e ?tg False v2')) (restatusPlan e ?tg)"
      using k3' p3' by (simp_all add: v2'_def split: if_splits)
    have whole: "syncTask l X specs False v = reconcileStatus Task e ?tg False v2'"
      unfolding unf eq1 K1 eq2 v2'_def ..
    have k: "keeps ?fam v (worldOf (reconcileStatus Task e ?tg False v2'))"
      using keeps_trans [OF keeps_trans [OF keeps_covers [OF k1] keeps_covers [OF k2]] k3]
      by simp
    have p: "performs v (worldOf (reconcileStatus Task e ?tg False v2'))
               ((renamePlan e ?nm @ concat (map (\<lambda>s. itemPlan l s specs v) ?ds)) @ restatusPlan e ?tg)"
      using performs_trans [OF performs_trans [OF p1 p2'] p3] .
    show ?thesis
      unfolding whole using k p Some e by (simp add: taskPlan_def)
  qed
  then show "keeps ?fam v (worldOf (syncTask l X specs False v))"
    and "performs v (worldOf (syncTask l X specs False v)) (taskPlan l X specs v)"
    by simp_all
qed

lemma quiet_refl [simp]: "quiet v v"
  by (simp add: quiet_def)

lemma quiet_say: "announced x = None \<Longrightarrow> quiet v u \<Longrightarrow> quiet v (say x u)"
  unfolding quiet_def using announces_say [of v u "[]" x] by simp

lemma quiet_keeps:
  assumes "quiet v u" and "uniqueIds v"
  shows "keeps ps v u"
proof -
  have o: "onlyOutput v u" using assms(1) by (simp add: quiet_def)
  show ?thesis
    using assms(2) unfolding keeps_def uniqueIds_def untouched_def
    by (simp add: onlyOutput_fields [OF o])
qed

lemma quiet_performs:
  assumes "quiet v u"
  shows "performs v u []"
proof -
  have o: "onlyOutput v u" using assms(1) by (simp add: quiet_def)
  show ?thesis
    unfolding performs_def by (simp add: onlyOutput_fields [OF o] List.map_filter_def)
qed

lemma findList_cong: "lists v' = lists v \<Longrightarrow> findList fo nm v' = findList fo nm v"
  by (simp add: findList_def getLists_def)

lemma featurePlan_cong:
  assumes "dirs v' = dirs v" and "lists v' = lists v"
    and "\<And>l Y. under F Y \<Longrightarrow> findTaskByCustomId l Y v' = findTaskByCustomId l Y v"
  shows "featurePlan fo F specs v' = featurePlan fo F specs v"
    and "featurePresent fo specs v' F = featurePresent fo specs v F"
proof -
  have ds: "taskDirsOf F v' = taskDirsOf F v"
    using assms(1) by (rule dirs_cong)
  have fl: "findList fo nm v' = findList fo nm v" for nm
    using assms(2) by (rule findList_cong)
  have t: "taskPlan l x specs v' = taskPlan l x specs v
         \<and> taskPresent l specs v' x = taskPresent l specs v x"
    if x: "x \<in> set (taskDirsOf F v)" for x l
  proof -
    obtain n where n: "x = F @ ''-'' @ n" using x taskDirsOf_seg by blast
    have ux: "under F x" unfolding n by (rule under_child)
    have "findTaskByCustomId l Y v' = findTaskByCustomId l Y v" if "under x Y" for Y
      using assms(3) under_trans [OF ux that] by simp
    then show ?thesis
      using taskPlan_cong [OF assms(1), of x l specs] by simp
  qed
  have plans: "map (\<lambda>x. taskPlan l x specs v') (taskDirsOf F v)
             = map (\<lambda>x. taskPlan l x specs v) (taskDirsOf F v)" for l
    using t by simp
  have pres: "list_all (taskPresent l specs v') (taskDirsOf F v)
            = list_all (taskPresent l specs v) (taskDirsOf F v)" for l
    using t by (simp add: list_all_iff)
  show "featurePlan fo F specs v' = featurePlan fo F specs v"
    unfolding featurePlan_def ds fl plans ..
  show "featurePresent fo specs v' F = featurePresent fo specs v F"
    unfolding featurePresent_def ds fl pres ..
qed

lemma featurePlan_dry:
  assumes "onlyOutput v v'"
  shows "featurePlan fo F specs v' = featurePlan fo F specs v"
    and "featurePresent fo specs v' F = featurePresent fo specs v F"
proof -
  have t: "findTaskByCustomId l Y v' = findTaskByCustomId l Y v" for l Y
    using onlyOutput_fields(1) [OF assms] by (rule lookup_tasks_cong)
  show "featurePlan fo F specs v' = featurePlan fo F specs v"
    using onlyOutput_fields(2,3) [OF assms] t by (rule featurePlan_cong)
  show "featurePresent fo specs v' F = featurePresent fo specs v F"
    using onlyOutput_fields(2,3) [OF assms] t by (rule featurePlan_cong)
qed

lemma syncFeature_present:
  assumes "specs F = Some d"
    and "findList fo (F @ '': '' @ title (metadata d)) v = Some l"
  shows "\<exists>u. quiet v u
           \<and> syncFeature fo F specs dr v
               = forEach (\<lambda>x. syncTask (list_id l) x specs dr) (taskDirsOf F v) u"
proof -
  let ?w1 = "say (ContainerExists Feature (F @ '': '' @ title (metadata d)))
               (say (Banner Feature F (title (metadata d))) v)"
  have q1: "quiet v ?w1"
    by (intro quiet_say) (simp_all add: announced_def)
  have d1: "dirs ?w1 = dirs v" by simp
  show ?thesis
  proof (cases "taskDirsOf F v = []")
    case True
    have "syncFeature fo F specs dr v = Ret () (say (InvalidFeatureId F) ?w1)
        \<or> syncFeature fo F specs dr v = Ret () (say (NoTasksFound F) ?w1)"
      using True assms
      by (auto simp: syncFeature_def await_def taskDirsOf_def Let_def split: option.splits)
    moreover have "announced (InvalidFeatureId F) = None" "announced (NoTasksFound F) = None"
      by (simp_all add: announced_def)
    ultimately obtain x where x: "announced x = None"
      "syncFeature fo F specs dr v = Ret () (say x ?w1)" by blast
    have "quiet v (say x ?w1)" using x(1) q1 by (rule quiet_say)
    then show ?thesis using x(2) True by (intro exI [of _ "say x ?w1"]) simp
  next
    case False
    let ?u = "say (FoundChildren Feature (length (taskDirsOf F v))) ?w1"
    have "syncFeature fo F specs dr v
            = forEach (\<lambda>x. syncTask (list_id l) x specs dr) (taskDirsOf F v) ?u"
      using False assms
      by (auto simp: syncFeature_def await_def taskDirsOf_def Let_def split: option.splits)
    moreover have "quiet v ?u"
      using q1 by (intro quiet_say) (simp_all add: announced_def)
    ultimately show ?thesis by blast
  qed
qed

subsection \<open>Dry run of a feature\<close>

lemma dry_tasks:
  "announces u (worldOf (forEach (\<lambda>x. syncTask l x specs True) xs u))
     (concat (map (\<lambda>x. taskPlan l x specs u) xs))
   \<and> returned (forEach (\<lambda>x. syncTask l x specs True) xs u)
   \<and> onlyOutput u (worldOf (forEach (\<lambda>x. syncTask l x specs True) xs u))"
proof (rule dry_loop [where g = "\<lambda>x. syncTask l x specs True"
        and plan = "\<lambda>x w. taskPlan l x specs w" and xs = xs and v = u])
  show "announces w (worldOf (syncTask l x specs True w)) (taskPlan l x specs w)
      \<and> returned (syncTask l x specs True w)
      \<and> onlyOutput w (worldOf (syncTask l x specs True w))" for x w
    using dry_syncTask_plan [of w l x specs] dry_syncTask [of w w l x specs] by simp
  show "taskPlan l x specs w' = taskPlan l x specs w" if "onlyOutput w w'" for x w w'
    using that by (rule taskPlan_dry)
qed

lemma dry_syncFeature_plan:
  "announces v (worldOf (syncFeature fo F specs True v)) (featurePlan fo F specs v)
   \<and> returned (syncFeature fo F specs True v)"
proof (cases "specs F")
  case None
  then show ?thesis
    by (simp add: syncFeature_def featurePlan_def announces_def say_def List.map_filter_def
        announced_def)
next
  case (Some d)
  show ?thesis
  proof (cases "findList fo (F @ '': '' @ title (metadata d)) v")
    case None
    then show ?thesis using Some
      by (simp add: syncFeature_def featurePlan_def Let_def await_def)
         (simp add: announces_def say_def List.map_filter_def announced_def)
  next
    case (Some l)
    obtain u where u: "quiet v u"
      "syncFeature fo F specs True v
         = forEach (\<lambda>x. syncTask (list_id l) x specs True) (taskDirsOf F v) u"
      using syncFeature_present [where specs = specs and F = F and d = d and fo = fo
          and v = v and l = l and dr = True] \<open>specs F = Some d\<close> Some by blast
    have o: "onlyOutput v u" and a: "announces v u []" using u(1) by (simp_all add: quiet_def)
    have plans: "map (\<lambda>x. taskPlan (list_id l) x specs u) (taskDirsOf F v)
               = map (\<lambda>x. taskPlan (list_id l) x specs v) (taskDirsOf F v)"
      using taskPlan_dry(1) [OF o] by simp
    have "announces v (worldOf (forEach (\<lambda>x. syncTask (list_id l) x specs True) (taskDirsOf F v) u))
            ([] @ concat (map (\<lambda>x. taskPlan (list_id l) x specs u) (taskDirsOf F v)))"
      using announces_trans [OF a conjunct1 [OF dry_tasks [of u "list_id l" specs "taskDirsOf F v"]]] .
    then show ?thesis
      unfolding u(2) plans using dry_tasks [of u "list_id l" specs "taskDirsOf F v"]
        Some \<open>specs F = Some d\<close>
      by (simp add: featurePlan_def)
  qed
qed

subsection \<open>Live run of a feature whose list and tasks exist\<close>

lemma live_tasks:
  assumes u: "uniqueIds v" and dd: "dirsDistinct v"
    and pr: "list_all (taskPresent l specs v) (taskDirsOf F v)"
    and r: "returned (forEach (\<lambda>x. syncTask l x specs False) (taskDirsOf F v) v)"
  shows "keeps [F @ ''-''] v (worldOf (forEach (\<lambda>x. syncTask l x specs False) (taskDirsOf F v) v))"
    and "performs v (worldOf (forEach (\<lambda>x. syncTask l x specs False) (taskDirsOf F v) v))
           (concat (map (\<lambda>x. taskPlan l x specs v) (taskDirsOf F v)))"
proof -
  let ?ds = "taskDirsOf F v"
  have "keeps [F @ ''-''] v (worldOf (forEach (\<lambda>x. syncTask l x specs False) ?ds v))
      \<and> performs v (worldOf (forEach (\<lambda>x. syncTask l x specs False) ?ds v))
          (concat (map (\<lambda>x. taskPlan l x specs v) ?ds))"
  proof (rule live_loop [where C = "\<lambda>x w. taskPresent l specs w x \<and> dirsDistinct w"
        and reg = "\<lambda>x. [x @ '':'', x @ ''-'']"
        and f = "\<lambda>x. syncTask l x specs False" and plan = "\<lambda>x w. taskPlan l x specs w"
        and R = "[F @ ''-'']" and xs = "taskDirsOf F v" and v = v])
    show "keeps [x @ '':'', x @ ''-''] w (worldOf (syncTask l x specs False w))
        \<and> performs w (worldOf (syncTask l x specs False w)) (taskPlan l x specs w)"
      if "uniqueIds w" "taskPresent l specs w x \<and> dirsDistinct w"
        "returned (syncTask l x specs False w)" for x w
      using live_syncTask [of w l specs x] that by simp
    show "taskPlan l y specs w' = taskPlan l y specs w
        \<and> (taskPresent l specs w' y \<and> dirsDistinct w')"
      if x: "x \<in> set ?ds" and y: "y \<in> set ?ds" and ne: "x \<noteq> y"
        and k: "keeps [x @ '':'', x @ ''-''] w w'"
        and c: "taskPresent l specs w y \<and> dirsDistinct w"
      for x y w w'
    proof -
      obtain a where a: "x = F @ ''-'' @ a" "plain a" using x taskDirsOf_seg by blast
      obtain b where b: "y = F @ ''-'' @ b" "plain b" using y taskDirsOf_seg by blast
      have d: "dirs w' = dirs w" using k by (rule keeps_dirs)
      have lk: "findTaskByCustomId l Y w' = findTaskByCustomId l Y w" if "under y Y" for Y
        using k siblings_apart [OF a(1) b(1) ne a(2) b(2) that] by (rule keeps_lookup2)
      have "taskPlan l y specs w' = taskPlan l y specs w"
        using d lk by (rule taskPlan_cong)
      moreover have "taskPresent l specs w' y = taskPresent l specs w y"
        using d lk by (rule taskPlan_cong)
      moreover have "dirsDistinct w' = dirsDistinct w"
        using d by (rule dirs_cong)
      ultimately show ?thesis using c by simp
    qed
    show "covers [F @ ''-''] [x @ '':'', x @ ''-'']" if x: "x \<in> set ?ds" for x
    proof -
      obtain a where "x = F @ ''-'' @ a" using x taskDirsOf_seg by blast
      then show ?thesis using covers_child2 by simp
    qed
    show "distinct ?ds" using dd by (rule dirs_distinct)
    show "uniqueIds v" by (rule u)
    show "\<forall>x\<in>set ?ds. taskPresent l specs v x \<and> dirsDistinct v"
      using pr dd by (simp add: list_all_iff)
    show "returned (forEach (\<lambda>x. syncTask l x specs False) ?ds v)" by (rule r)
  qed
  then show "keeps [F @ ''-''] v (worldOf (forEach (\<lambda>x. syncTask l x specs False) ?ds v))"
    and "performs v (worldOf (forEach (\<lambda>x. syncTask l x specs False) ?ds v))
          (concat (map (\<lambda>x. taskPlan l x specs v) ?ds))"
    by simp_all
qed

lemma live_syncFeature:
  assumes u: "uniqueIds v" and dd: "dirsDistinct v" and pr: "featurePresent fo specs v F"
    and r: "returned (syncFeature fo F specs False v)"
  shows "keeps [F @ ''-''] v (worldOf (syncFeature fo F specs False v))"
    and "performs v (worldOf (syncFeature fo F specs False v)) (featurePlan fo F specs v)"
proof -
  have "keeps [F @ ''-''] v (worldOf (syncFeature fo F specs False v))
      \<and> performs v (worldOf (syncFeature fo F specs False v)) (featurePlan fo F specs v)"
  proof (cases "specs F")
    case None
    then show ?thesis using u by (simp add: syncFeature_def featurePlan_def keeps_refl)
  next
    case (Some d)
    then obtain l where l: "findList fo (F @ '': '' @ title (metadata d)) v = Some l"
      and tp: "list_all (taskPresent (list_id l) specs v) (taskDirsOf F v)"
      using pr by (auto simp: featurePresent_def split: option.splits)
    obtain w where w: "quiet v w"
      "syncFeature fo F specs False v
         = forEach (\<lambda>x. syncTask (list_id l) x specs False) (taskDirsOf F v) w"
      using syncFeature_present [where specs = specs and F = F and d = d and fo = fo
          and v = v and l = l and dr = False] Some l by blast
    have o: "onlyOutput v w" using w(1) by (simp add: quiet_def)
    have k0: "keeps [F @ ''-''] v w" using w(1) u by (rule quiet_keeps)
    have p0: "performs v w []" using w(1) by (rule quiet_performs)
    have uw: "uniqueIds w" using k0 by (rule keeps_unique)
    have dw: "dirs w = dirs v" using k0 by (rule keeps_dirs)
    have ds: "taskDirsOf F w = taskDirsOf F v" using dw by (rule dirs_cong)
    have ddw: "dirsDistinct w" using dd dirs_cong(4) [OF dw] by simp
    have same: "taskPlan (list_id l) x specs w = taskPlan (list_id l) x specs v
              \<and> taskPresent (list_id l) specs w x = taskPresent (list_id l) specs v x" for x
      using taskPlan_dry [OF o] by simp
    have tpw: "list_all (taskPresent (list_id l) specs w) (taskDirsOf F w)"
      using tp same unfolding ds by (simp add: list_all_iff)
    have rw: "returned (forEach (\<lambda>x. syncTask (list_id l) x specs False) (taskDirsOf F w) w)"
      using r unfolding w(2) ds .
    have k1: "keeps [F @ ''-''] w
                (worldOf (forEach (\<lambda>x. syncTask (list_id l) x specs False) (taskDirsOf F w) w))"
      and p1: "performs w
                (worldOf (forEach (\<lambda>x. syncTask (list_id l) x specs False) (taskDirsOf F w) w))
                (concat (map (\<lambda>x. taskPlan (list_id l) x specs w) (taskDirsOf F w)))"
      using live_tasks [OF uw ddw tpw rw] by simp_all
    have plans: "map (\<lambda>x. taskPlan (list_id l) x specs w) (taskDirsOf F v)
               = map (\<lambda>x. taskPlan (list_id l) x specs v) (taskDirsOf F v)"
      using same by simp
    have k: "keeps [F @ ''-''] v
                (worldOf (forEach (\<lambda>x. syncTask (list_id l) x specs False) (taskDirsOf F v) w))"
      using keeps_trans [OF k0 k1] unfolding ds .
    have p: "performs v
                (worldOf (forEach (\<lambda>x. syncTask (list_id l) x specs False) (taskDirsOf F v) w))
                ([] @ concat (map (\<lambda>x. taskPlan (list_id l) x specs v) (taskDirsOf F v)))"
      using performs_trans [OF p0 p1] unfolding ds plans .
    show ?thesis
      unfolding w(2) using k p Some l by (simp add: featurePlan_def)
  qed
  then show "keeps [F @ ''-''] v (worldOf (syncFeature fo F specs False v))"
    and "performs v (worldOf (syncFeature fo F specs False v)) (featurePlan fo F specs v)"
    by simp_all
qed

lemma announces_announcedBy: "announces w w' as \<Longrightarrow> announcedBy w w' = as"
  by (auto simp: announces_def announcedBy_def)

lemma performs_performedBy: "performs w w' as \<Longrightarrow> performedBy w w' = as"
  by (auto simp: performs_def performedBy_def issued_def)

lemma syncEpic_present:
  assumes "specs E = Some d"
    and "findFolder sp (E @ '' - '' @ title (metadata d)) v = Some f"
  shows "\<exists>u. quiet v u
           \<and> (syncEpic sp E specs dr v
                = forEach (\<lambda>x. syncFeature (folder_id f) x specs dr) (featureDirsOf E v) u
              \<or> featureDirsOf E v = [] \<and> syncEpic sp E specs dr v = Exn u)"
proof -
  let ?w1 = "say (ContainerExists Epic (E @ '' - '' @ title (metadata d)))
               (say (Banner Epic E (title (metadata d))) v)"
  have q1: "quiet v ?w1"
    by (intro quiet_say) (simp_all add: announced_def)
  show ?thesis
  proof (cases "dirs v [E]")
    case None
    have "syncEpic sp E specs dr v = Exn ?w1"
      using None assms by (simp add: syncEpic_def await_def Let_def)
    moreover have "featureDirsOf E v = []"
      using None by (simp add: featureDirsOf_def)
    ultimately show ?thesis using q1 by blast
  next
    case (Some es)
    let ?u = "say (FoundChildren Epic (length (featureDirsOf E v))) ?w1"
    have "syncEpic sp E specs dr v
            = forEach (\<lambda>x. syncFeature (folder_id f) x specs dr) (featureDirsOf E v) ?u"
      using Some assms by (simp add: syncEpic_def await_def Let_def featureDirsOf_def)
    moreover have "quiet v ?u"
      using q1 by (intro quiet_say) (simp_all add: announced_def)
    ultimately show ?thesis by blast
  qed
qed

subsection \<open>Dry run of an epic\<close>

lemma dry_features:
  "announces u (worldOf (forEach (\<lambda>x. syncFeature fo x specs True) xs u))
     (concat (map (\<lambda>x. featurePlan fo x specs u) xs))
   \<and> returned (forEach (\<lambda>x. syncFeature fo x specs True) xs u)
   \<and> onlyOutput u (worldOf (forEach (\<lambda>x. syncFeature fo x specs True) xs u))"
proof (rule dry_loop [where g = "\<lambda>x. syncFeature fo x specs True"
        and plan = "\<lambda>x w. featurePlan fo x specs w" and xs = xs and v = u])
  show "announces w (worldOf (syncFeature fo x specs True w)) (featurePlan fo x specs w)
      \<and> returned (syncFeature fo x specs True w)
      \<and> onlyOutput w (worldOf (syncFeature fo x specs True w))" for x w
    using dry_syncFeature_plan [of w fo x specs] dry_syncFeature [of w w fo x specs] by simp
  show "featurePlan fo x specs w' = featurePlan fo x specs w" if "onlyOutput w w'" for x w w'
    using that by (rule featurePlan_dry)
qed

lemma dry_syncEpic_plan:
  "announces v (worldOf (syncEpic sp E specs True v)) (epicPlan sp E specs v)"
proof (cases "specs E")
  case None
  then show ?thesis
    by (simp add: syncEpic_def epicPlan_def announces_def say_def List.map_filter_def
        announced_def)
next
  case (Some d)
  show ?thesis
  proof (cases "findFolder sp (E @ '' - '' @ title (metadata d)) v")
    case None
    then show ?thesis using Some
      by (simp add: syncEpic_def epicPlan_def Let_def await_def)
         (simp add: announces_def say_def List.map_filter_def announced_def)
  next
    case (Some f)
    obtain u where u: "quiet v u"
      "syncEpic sp E specs True v
         = forEach (\<lambda>x. syncFeature (folder_id f) x specs True) (featureDirsOf E v) u
       \<or> featureDirsOf E v = [] \<and> syncEpic sp E specs True v = Exn u"
      using syncEpic_present [where specs = specs and E = E and d = d and sp = sp
          and v = v and f = f and dr = True] \<open>specs E = Some d\<close> Some by blast
    have o: "onlyOutput v u" and a: "announces v u []" using u(1) by (simp_all add: quiet_def)
    have plans: "map (\<lambda>x. featurePlan (folder_id f) x specs u) (featureDirsOf E v)
               = map (\<lambda>x. featurePlan (folder_id f) x specs v) (featureDirsOf E v)"
      using featurePlan_dry(1) [OF o] by simp
    have loop: "announces v (worldOf (forEach (\<lambda>x. syncFeature (folder_id f) x specs True)
                                  (featureDirsOf E v) u))
            ([] @ concat (map (\<lambda>x. featurePlan (folder_id f) x specs u) (featureDirsOf E v)))"
      using announces_trans [OF a conjunct1 [OF dry_features [of u "folder_id f" specs "featureDirsOf E v"]]] .
    from u(2) show ?thesis
    proof
      assume "syncEpic sp E specs True v
         = forEach (\<lambda>x. syncFeature (folder_id f) x specs True) (featureDirsOf E v) u"
      then show ?thesis
        using loop Some \<open>specs E = Some d\<close> unfolding plans by (simp add: epicPlan_def)
    next
      assume "featureDirsOf E v = [] \<and> syncEpic sp E specs True v = Exn u"
      then show ?thesis
        using a Some \<open>specs E = Some d\<close> by (simp add: epicPlan_def)
    qed
  qed
qed

subsection \<open>Live run of an epic whose folder, lists and tasks exist\<close>

lemma covers_feature: "covers [E @ ''-''] [(E @ ''-'' @ a) @ ''-'']"
  by (simp add: covers_def startsWith_def)

lemma keeps_lists: "keeps ps v v' \<Longrightarrow> lists v' = lists v"
  by (simp add: keeps_def)

lemma live_features:
  assumes u: "uniqueIds v" and dd: "dirsDistinct v"
    and pr: "list_all (featurePresent fo specs v) (featureDirsOf E v)"
    and r: "returned (forEach (\<lambda>x. syncFeature fo x specs False) (featureDirsOf E v) v)"
  shows "performs v (worldOf (forEach (\<lambda>x. syncFeature fo x specs False) (featureDirsOf E v) v))
           (concat (map (\<lambda>x. featurePlan fo x specs v) (featureDirsOf E v)))"
proof -
  let ?ds = "featureDirsOf E v"
  have "keeps [E @ ''-''] v (worldOf (forEach (\<lambda>x. syncFeature fo x specs False) ?ds v))
      \<and> performs v (worldOf (forEach (\<lambda>x. syncFeature fo x specs False) ?ds v))
          (concat (map (\<lambda>x. featurePlan fo x specs v) ?ds))"
  proof (rule live_loop [where C = "\<lambda>x w. featurePresent fo specs w x \<and> dirsDistinct w"
        and reg = "\<lambda>x. [x @ ''-'']"
        and f = "\<lambda>x. syncFeature fo x specs False" and plan = "\<lambda>x w. featurePlan fo x specs w"
        and R = "[E @ ''-'']" and xs = "featureDirsOf E v" and v = v])
    show "keeps [x @ ''-''] w (worldOf (syncFeature fo x specs False w))
        \<and> performs w (worldOf (syncFeature fo x specs False w)) (featurePlan fo x specs w)"
      if "uniqueIds w" "featurePresent fo specs w x \<and> dirsDistinct w"
        "returned (syncFeature fo x specs False w)" for x w
      using live_syncFeature [of w fo specs x] that by simp
    show "featurePlan fo y specs w' = featurePlan fo y specs w
        \<and> (featurePresent fo specs w' y \<and> dirsDistinct w')"
      if x: "x \<in> set ?ds" and y: "y \<in> set ?ds" and ne: "x \<noteq> y"
        and k: "keeps [x @ ''-''] w w'"
        and c: "featurePresent fo specs w y \<and> dirsDistinct w"
      for x y w w'
    proof -
      obtain a where a: "x = E @ ''-'' @ a" "plain a" using x featureDirsOf_seg by blast
      obtain b where b: "y = E @ ''-'' @ b" "plain b" using y featureDirsOf_seg by blast
      have d: "dirs w' = dirs w" using k by (rule keeps_dirs)
      have ls: "lists w' = lists w" using k by (rule keeps_lists)
      have lk: "findTaskByCustomId l Y w' = findTaskByCustomId l Y w" if "under y Y" for l Y
        using k siblings_apart(2) [OF a(1) b(1) ne a(2) b(2) that] by (rule keeps_lookup1)
      have "featurePlan fo y specs w' = featurePlan fo y specs w"
        using d ls lk by (rule featurePlan_cong)
      moreover have "featurePresent fo specs w' y = featurePresent fo specs w y"
        using d ls lk by (rule featurePlan_cong)
      moreover have "dirsDistinct w' = dirsDistinct w"
        using d by (rule dirs_cong)
      ultimately show ?thesis using c by simp
    qed
    show "covers [E @ ''-''] [x @ ''-'']" if x: "x \<in> set ?ds" for x
    proof -
      obtain a where "x = E @ ''-'' @ a" using x featureDirsOf_seg by blast
      then show ?thesis using covers_feature by simp
    qed
    show "distinct ?ds" using dd by (rule dirs_distinct)
    show "uniqueIds v" by (rule u)
    show "\<forall>x\<in>set ?ds. featurePresent fo specs v x \<and> dirsDistinct v"
      using pr dd by (simp add: list_all_iff)
    show "returned (forEach (\<lambda>x. syncFeature fo x specs False) ?ds v)" by (rule r)
  qed
  then show ?thesis by simp
qed

lemma live_syncEpic:
  assumes u: "uniqueIds v" and dd: "dirsDistinct v" and pr: "epicPresent sp specs v E"
    and r: "returned (syncEpic sp E specs False v)"
  shows "performs v (worldOf (syncEpic sp E specs False v)) (epicPlan sp E specs v)"
proof (cases "specs E")
  case None
  then show ?thesis by (simp add: syncEpic_def epicPlan_def)
next
  case (Some d)
  then obtain f where f: "findFolder sp (E @ '' - '' @ title (metadata d)) v = Some f"
    and fp: "list_all (featurePresent (folder_id f) specs v) (featureDirsOf E v)"
    using pr by (auto simp: epicPresent_def split: option.splits)
  obtain w where w: "quiet v w"
    "syncEpic sp E specs False v
       = forEach (\<lambda>x. syncFeature (folder_id f) x specs False) (featureDirsOf E v) w
     \<or> featureDirsOf E v = [] \<and> syncEpic sp E specs False v = Exn w"
    using syncEpic_present [where specs = specs and E = E and d = d and sp = sp
        and v = v and f = f and dr = False] Some f by blast
  have run: "syncEpic sp E specs False v
       = forEach (\<lambda>x. syncFeature (folder_id f) x specs False) (featureDirsOf E v) w"
    using w(2) r by auto
  have o: "onlyOutput v w" using w(1) by (simp add: quiet_def)
  have k0: "keeps [E @ ''-''] v w" using w(1) u by (rule quiet_keeps)
  have p0: "performs v w []" using w(1) by (rule quiet_performs)
  have uw: "uniqueIds w" using k0 by (rule keeps_unique)
  have dw: "dirs w = dirs v" using k0 by (rule keeps_dirs)
  have ds: "featureDirsOf E w = featureDirsOf E v" using dw by (rule dirs_cong)
  have ddw: "dirsDistinct w" using dd dirs_cong(4) [OF dw] by simp
  have same: "featurePlan (folder_id f) x specs w = featurePlan (folder_id f) x specs v
            \<and> featurePresent (folder_id f) specs w x = featurePresent (folder_id f) specs v x" for x
    using featurePlan_dry [OF o] by simp
  have fpw: "list_all (featurePresent (folder_id f) specs w) (featureDirsOf E w)"
    using fp same unfolding ds by (simp add: list_all_iff)
  have rw: "returned (forEach (\<lambda>x. syncFeature (folder_id f) x specs False) (featureDirsOf E w) w)"
    using r unfolding run ds .
  have p1: "performs w
              (worldOf (forEach (\<lambda>x. syncFeature (folder_id f) x specs False) (featureDirsOf E w) w))
              (concat (map (\<lambda>x. featurePlan (folder_id f) x specs w) (featureDirsOf E w)))"
    using live_features [OF uw ddw fpw rw] .
  have plans: "map (\<lambda>x. featurePlan (folder_id f) x specs w) (featureDirsOf E v)
             = map (\<lambda>x. featurePlan (folder_id f) x specs v) (featureDirsOf E v)"
    using same by simp
  have p: "performs v
              (worldOf (forEach (\<lambda>x. syncFeature (folder_id f) x specs False) (featureDirsOf E v) w))
              ([] @ concat (map (\<lambda>x. featurePlan (folder_id f) x specs v) (featureDirsOf E v)))"
    using performs_trans [OF p0 p1] unfolding ds plans .
  show ?thesis
    unfolding run using p Some f by (simp add: epicPlan_def)
qed




section \<open>Throttled requests\<close>

lemma timerDelay_exact: "1 \<le> ms \<Longrightarrow> ms \<le> 2147483647 \<Longrightarrow> timerDelay (exact ms) = ms"
  by (simp add: timerDelay_def exact_def)

lemma transcript_append:
  assumes "trace n' = trace n @ es"
  shows "transcript n n' = filter (\<lambda>e. case e of Paced ms \<Rightarrow> False | _ \<Rightarrow> True) es"
  using assms by (simp add: transcript_def)

lemma filter_paced:
  "\<forall>e\<in>set ps. \<exists>ms. e = Paced ms \<Longrightarrow> filter (\<lambda>e. case e of Paced ms \<Rightarrow> False | _ \<Rightarrow> True) ps = []"
  by (induction ps) auto

lemma paced:
  assumes "lastRequestTime n \<le> now n" and "0 < m" and "m \<le> 2147483647"
  shows "\<exists>ps. trace (requestInterceptor m n) = trace n @ ps \<and> (\<forall>e\<in>set ps. \<exists>ms. e = Paced ms)"
    and "now (requestInterceptor m n) = max (now n) (lastRequestTime n + m)"
    and "lastRequestTime (requestInterceptor m n) = max (now n) (lastRequestTime n + m)"
    and "answers (requestInterceptor m n) = answers n"
proof -
  show "\<exists>ps. trace (requestInterceptor m n) = trace n @ ps \<and> (\<forall>e\<in>set ps. \<exists>ms. e = Paced ms)"
    by (simp add: requestInterceptor_def Let_def setTimeout_def record_event_def)
  show "answers (requestInterceptor m n) = answers n"
    by (simp add: requestInterceptor_def Let_def setTimeout_def record_event_def)
  have d: "timerDelay (exact (m - (now n - lastRequestTime n))) = m - (now n - lastRequestTime n)"
    if "now n - lastRequestTime n < m"
    using that assms by (intro timerDelay_exact) simp_all
  show "now (requestInterceptor m n) = max (now n) (lastRequestTime n + m)"
    using d by (simp add: requestInterceptor_def Let_def setTimeout_def record_event_def)
  show "lastRequestTime (requestInterceptor m n) = max (now n) (lastRequestTime n + m)"
    using d by (simp add: requestInterceptor_def Let_def setTimeout_def record_event_def)
qed

lemma attempt:
  assumes "answers n = a # rest" and "lastRequestTime n \<le> now n" and "0 < m" and "m \<le> 2147483647"
  obtains ps n1 where "send (requestInterceptor m n) = (a, n1)"
    and "trace n1 = trace n @ ps @ [Send (max (now n) (lastRequestTime n + m))]"
    and "\<forall>e\<in>set ps. \<exists>ms. e = Paced ms"
    and "answers n1 = rest"
    and "now n1 = max (now n) (lastRequestTime n + m)"
    and "lastRequestTime n1 = max (now n) (lastRequestTime n + m)"
proof -
  let ?t = "max (now n) (lastRequestTime n + m)"
  let ?i = "requestInterceptor m n"
  obtain ps where ps: "trace ?i = trace n @ ps" "\<forall>e\<in>set ps. \<exists>ms. e = Paced ms"
    using paced(1) [OF assms(2-4)] by blast
  have t: "now ?i = ?t" "lastRequestTime ?i = ?t" "answers ?i = a # rest"
    using paced(2-4) [OF assms(2-4)] assms(1) by simp_all
  let ?n1 = "(record_event (Send ?t) ?i)\<lparr> answers := rest \<rparr>"
  have "send ?i = (a, ?n1)"
    using t by (simp add: send_def)
  moreover have "trace ?n1 = trace n @ ps @ [Send ?t]"
    using ps by (simp add: record_event_def)
  moreover have "answers ?n1 = rest" "now ?n1 = ?t" "lastRequestTime ?n1 = ?t"
    using t by (simp_all add: record_event_def)
  ultimately show ?thesis using that ps(2) by blast
qed

lemma sync_client:
  assumes "answers n = a # rest" and "lastRequestTime n \<le> now n"
  shows "fst (syncClientRequest n) = (case a of Success d \<Rightarrow> Inr d | Failure st hdr \<Rightarrow> Inl a)
    \<and> transcript n (snd (syncClientRequest n)) = [Send (max (now n) (lastRequestTime n + 200))]
    \<and> now (snd (syncClientRequest n)) = max (now n) (lastRequestTime n + 200)
    \<and> answers (snd (syncClientRequest n)) = rest"
proof -
  have m: "(0::int) < 200" "(200::int) \<le> 2147483647" by simp_all
  obtain ps n1 where 1: "send (requestInterceptor 200 n) = (a, n1)"
    and 2: "trace n1 = trace n @ ps @ [Send (max (now n) (lastRequestTime n + 200))]"
    and 3: "\<forall>e\<in>set ps. \<exists>ms. e = Paced ms"
    and 4: "answers n1 = rest" and 5: "now n1 = max (now n) (lastRequestTime n + 200)"
    using attempt [OF assms m] by metis
  have "transcript n n1 = [Send (max (now n) (lastRequestTime n + 200))]"
    using transcript_append [OF 2] filter_paced [OF 3] by simp
  then show ?thesis
    using 1 4 5 by (cases a) (simp_all add: syncClientRequest_def)
qed

lemma migration_no_retry:
  assumes "answers n = a # rest" and "lastRequestTime n \<le> now n"
    and "retry \<or> (\<forall>hdr. a \<noteq> Failure (Some 429) hdr)"
  shows "fst (migrationClientRequest retry n) = (case a of Success d \<Rightarrow> Inr d | Failure st hdr \<Rightarrow> Inl a)
    \<and> transcript n (snd (migrationClientRequest retry n))
        = [Send (max (now n) (lastRequestTime n + 1000))]
    \<and> now (snd (migrationClientRequest retry n)) = max (now n) (lastRequestTime n + 1000)
    \<and> answers (snd (migrationClientRequest retry n)) = rest"
proof -
  have m: "(0::int) < 1000" "(1000::int) \<le> 2147483647" by simp_all
  obtain ps n1 where 1: "send (requestInterceptor 1000 n) = (a, n1)"
    and 2: "trace n1 = trace n @ ps @ [Send (max (now n) (lastRequestTime n + 1000))]"
    and 3: "\<forall>e\<in>set ps. \<exists>ms. e = Paced ms"
    and 4: "answers n1 = rest" and 5: "now n1 = max (now n) (lastRequestTime n + 1000)"
    using attempt [OF assms(1,2) m] by metis
  have "transcript n n1 = [Send (max (now n) (lastRequestTime n + 1000))]"
    using transcript_append [OF 2] filter_paced [OF 3] by simp
  then show ?thesis
    using 1 4 5 assms(3) by (cases a) (auto simp: migrationClientRequest.simps [of retry n])
qed

lemma migration_retry:
  assumes "answers n = Failure (Some 429) hdr # b # rest" and "lastRequestTime n \<le> now n"
  shows "fst (migrationClientRequest False n) = (case b of Success d \<Rightarrow> Inr d | Failure st h \<Rightarrow> Inl b)
    \<and> transcript n (snd (migrationClientRequest False n))
        = [Send (max (now n) (lastRequestTime n + 1000)),
           Backoff (times1000 (retryAfterOf hdr)),
           Send (max (now n) (lastRequestTime n + 1000)
                   + max 1000 (timerDelay (times1000 (retryAfterOf hdr))))]
    \<and> answers (snd (migrationClientRequest False n)) = rest"
proof -
  have m: "(0::int) < 1000" "(1000::int) \<le> 2147483647" by simp_all
  let ?wait = "times1000 (retryAfterOf hdr)"
  let ?t = "max (now n) (lastRequestTime n + 1000)"
  obtain ps n1 where 1: "send (requestInterceptor 1000 n) = (Failure (Some 429) hdr, n1)"
    and 2: "trace n1 = trace n @ ps @ [Send ?t]" and 3: "\<forall>e\<in>set ps. \<exists>ms. e = Paced ms"
    and 4: "answers n1 = b # rest" and 5: "now n1 = ?t" and 6: "lastRequestTime n1 = ?t"
    using attempt [OF assms m] by metis
  let ?n2 = "setTimeout ?wait (record_event (Backoff ?wait) n1)"
  have step: "migrationClientRequest False n = migrationClientRequest True ?n2"
    using 1 by (simp add: migrationClientRequest.simps [of False n] Let_def)
  have a2: "answers ?n2 = b # rest"
    using 4 by (simp add: setTimeout_def record_event_def)
  have t2: "trace ?n2 = trace n @ ps @ [Send ?t, Backoff ?wait]"
    using 2 by (simp add: setTimeout_def record_event_def)
  have pos: "1 \<le> timerDelay ?wait"
    by (simp add: timerDelay_def split: number.splits)
  have c2: "now ?n2 = ?t + timerDelay ?wait" "lastRequestTime ?n2 = ?t"
    using 5 6 by (simp_all add: setTimeout_def record_event_def)
  have le2: "lastRequestTime ?n2 \<le> now ?n2"
    using c2 pos by simp
  have t3: "max (now ?n2) (lastRequestTime ?n2 + 1000) = ?t + max 1000 (timerDelay ?wait)"
    unfolding c2 by simp
  obtain qs n3 where 7: "send (requestInterceptor 1000 ?n2) = (b, n3)"
    and 8: "trace n3 = trace ?n2 @ qs @ [Send (?t + max 1000 (timerDelay ?wait))]"
    and 9: "\<forall>e\<in>set qs. \<exists>ms. e = Paced ms"
    and 10: "answers n3 = rest"
    using attempt [OF a2 le2 m] unfolding t3 by metis
  have res: "migrationClientRequest True ?n2 = (case b of Success d \<Rightarrow> Inr d | Failure st h \<Rightarrow> Inl b, n3)"
    using 7 by (cases b) (simp_all add: migrationClientRequest.simps [of True ?n2])
  have "trace n3 = trace n @ (ps @ [Send ?t, Backoff ?wait] @ qs @ [Send (?t + max 1000 (timerDelay ?wait))])"
    using 8 t2 by simp
  then have "transcript n n3 = [Send ?t, Backoff ?wait, Send (?t + max 1000 (timerDelay ?wait))]"
    using transcript_append [of n3 n "ps @ [Send ?t, Backoff ?wait] @ qs @ [Send (?t + max 1000 (timerDelay ?wait))]"]
      filter_paced [OF 3] filter_paced [OF 9] by simp
  then show ?thesis
    using step res 10 by simp
qed

lemma retryAfterOf_default: "retryAfterOf None = Whole 60" "retryAfterOf (Some []) = Whole 60"
  by (simp_all add: retryAfterOf_def parseInt_def is_space_def is_digit_def digitValue_def exact_def)

lemma wait_in_range:
  assumes "1 \<le> s" and "s \<le> 2147483"
  shows "times1000 (Whole s) = Whole (s * 1000)" and "timerDelay (times1000 (Whole s)) = s * 1000"
    and "max 1000 (s * 1000) = s * 1000"
  using assms by (simp_all add: times1000_def exact_def timerDelay_def)




section \<open>Write-back: the lines of the document\<close>

lemma split_on_nonempty [simp]: "split_on c s \<noteq> []"
  by (induction s) (auto split: list.splits)

lemma join_split [simp]: "join_with [c] (split_on c s) = s"
proof (induction s)
  case Nil
  then show ?case by simp
next
  case (Cons x xs)
  obtain l ls where sp: "split_on c xs = l # ls"
    by (cases "split_on c xs") simp_all
  show ?case
  proof (cases "x = c")
    case True
    then show ?thesis using Cons sp by simp
  next
    case False
    then show ?thesis using Cons sp by (cases ls) simp_all
  qed
qed

lemma split_no_sep: "l \<in> set (split_on c s) \<Longrightarrow> c \<notin> set l"
proof (induction s arbitrary: l)
  case Nil
  then show ?case by simp
next
  case (Cons x xs)
  obtain m ms where sp: "split_on c xs = m # ms"
    by (cases "split_on c xs") simp_all
  have m: "c \<notin> set m" and ms: "\<And>k. k \<in> set ms \<Longrightarrow> c \<notin> set k"
    using Cons.IH sp by simp_all
  show ?case
  proof (cases "x = c")
    case True
    then show ?thesis using Cons.prems sp m ms by auto
  next
    case False
    then show ?thesis using Cons.prems sp m ms by auto
  qed
qed

lemma split_on_no_sep: "c \<notin> set l \<Longrightarrow> split_on c l = [l]"
  by (induction l) auto

lemma split_on_append: "c \<notin> set l \<Longrightarrow> split_on c (l @ c # r) = l # split_on c r"
  by (induction l) auto

lemma split_join:
  "ls \<noteq> [] \<Longrightarrow> \<forall>l\<in>set ls. c \<notin> set l \<Longrightarrow> split_on c (join_with [c] ls) = ls"
proof (induction ls)
  case Nil
  then show ?case by simp
next
  case (Cons l ls)
  show ?case
  proof (cases ls)
    case Nil
    then show ?thesis using Cons.prems by (simp add: split_on_no_sep)
  next
    case (Cons m ms)
    then show ?thesis using Cons.IH Cons.prems by (simp add: split_on_append)
  qed
qed

lemma findIndex_Some:
  "findIndex P xs = Some i \<Longrightarrow> i < length xs \<and> P (xs ! i) \<and> (\<forall>j<i. \<not> P (xs ! j))"
proof (induction xs arbitrary: i)
  case Nil
  then show ?case by simp
next
  case (Cons x xs)
  show ?case
  proof (cases "P x")
    case True
    then show ?thesis using Cons.prems by simp
  next
    case False
    then obtain k where k: "findIndex P xs = Some k" "i = Suc k"
      using Cons.prems by (auto split: option.splits)
    then have "k < length xs \<and> P (xs ! k) \<and> (\<forall>j<k. \<not> P (xs ! j))"
      using Cons.IH by simp
    then show ?thesis using k False by (auto simp: less_Suc_eq_0_disj)
  qed
qed

lemma findIndex_None: "findIndex P xs = None \<Longrightarrow> \<forall>x\<in>set xs. \<not> P x"
  by (induction xs) (auto split: if_splits option.splits)

lemma NL_newFieldLine: "NL \<notin> set t \<Longrightarrow> NL \<notin> set (newFieldLine t)"
  by (simp add: newFieldLine_def NL_def QUOTE_def)

lemma write_back_cases:
  assumes "updateSpecFileWithTaskId specId clickupTaskId fs = (r, fs')" and "wrote r"
  obtains parts content i where
    "parseSpecId specId = Some parts"
    "fs (specFilePath specId parts) = Some content"
    "(r = Updated \<and> findIndex fieldLine (split_on NL content) = Some i
        \<and> fs' = fs(specFilePath specId parts \<mapsto>
                    join_with [NL] ((split_on NL content)[i := newFieldLine clickupTaskId])))
     \<or> (r = Added \<and> findIndex fieldLine (split_on NL content) = None
        \<and> findIndex idLine (split_on NL content) = Some i
        \<and> fs' = fs(specFilePath specId parts \<mapsto>
                    join_with [NL] (take (Suc i) (split_on NL content)
                                      @ [newFieldLine clickupTaskId]
                                      @ drop (Suc i) (split_on NL content))))"
proof -
  obtain parts where parts: "parseSpecId specId = Some parts"
    using assms by (auto simp: updateSpecFileWithTaskId_def wrote_def split: option.splits)
  let ?p = "specFilePath specId parts"
  obtain content where content: "fs ?p = Some content"
    using assms parts
    by (auto simp: updateSpecFileWithTaskId_def wrote_def Let_def split: option.splits)
  let ?lines = "split_on NL content"
  show ?thesis
  proof (cases "findIndex fieldLine ?lines")
    case (Some i)
    have "r = Updated \<and> fs' = fs(?p \<mapsto> join_with [NL] (?lines[i := newFieldLine clickupTaskId]))"
      using assms parts content Some
      by (auto simp: updateSpecFileWithTaskId_def wrote_def Let_def
          split: option.splits if_splits)
    then show ?thesis using that [OF parts content] Some by blast
  next
    case None
    then obtain i where idx: "findIndex idLine ?lines = Some i"
      using assms parts content
      by (auto simp: updateSpecFileWithTaskId_def wrote_def Let_def
          split: option.splits if_splits)
    have "r = Added
          \<and> fs' = fs(?p \<mapsto> join_with [NL] (take (Suc i) ?lines @ [newFieldLine clickupTaskId]
                                                @ drop (Suc i) ?lines))"
      using assms parts content None idx
      by (auto simp: updateSpecFileWithTaskId_def wrote_def Let_def
          split: option.splits if_splits)
    then show ?thesis using that [OF parts content] None idx by blast
  qed
qed

lemma lines_after_write:
  assumes "NL \<notin> set t" and "i < length (split_on NL content)"
  shows "split_on NL (join_with [NL] ((split_on NL content)[i := newFieldLine t]))
           = (split_on NL content)[i := newFieldLine t]"
    and "split_on NL (join_with [NL] (take (Suc i) (split_on NL content) @ [newFieldLine t]
                                        @ drop (Suc i) (split_on NL content)))
           = take (Suc i) (split_on NL content) @ [newFieldLine t]
               @ drop (Suc i) (split_on NL content)"
proof -
  let ?lines = "split_on NL content"
  let ?new = "newFieldLine t"
  have nonl: "\<forall>l\<in>set ?lines. NL \<notin> set l"
    using split_no_sep by blast
  show "split_on NL (join_with [NL] (?lines[i := ?new])) = ?lines[i := ?new]"
  proof (rule split_join)
    show "?lines[i := ?new] \<noteq> []" by simp
    show "\<forall>l\<in>set (?lines[i := ?new]). NL \<notin> set l"
      using nonl NL_newFieldLine [OF assms(1)]
      by (metis insert_iff set_update_subset_insert subsetD)
  qed
  show "split_on NL (join_with [NL] (take (Suc i) ?lines @ [?new] @ drop (Suc i) ?lines))
          = take (Suc i) ?lines @ [?new] @ drop (Suc i) ?lines"
  proof (rule split_join)
    show "take (Suc i) ?lines @ [?new] @ drop (Suc i) ?lines \<noteq> []" by simp
    show "\<forall>l\<in>set (take (Suc i) ?lines @ [?new] @ drop (Suc i) ?lines). NL \<notin> set l"
      using nonl NL_newFieldLine [OF assms(1)] by (auto dest: in_set_takeD in_set_dropD)
  qed
qed

text \<open>
  C9. Whenever \<open>updateSpecFileWithTaskId\<close> writes, the new text of the document is
  the old lines joined again with one change: either the first line that starts with
  \<open>clickup_task_id:\<close> is replaced by the new field line, or, when no line starts so,
  the new field line is inserted right after the first \<open>id:\<close> line. Every other line
  is kept as it was, in its place; no other file changes. When the identifier has no
  line feed the lines of the new text are exactly that list.
\<close>

theorem write_back_keeps_other_lines:
  assumes "updateSpecFileWithTaskId specId clickupTaskId fs = (r, fs')" and "wrote r"
  shows "\<exists>parts content i.
           parseSpecId specId = Some parts
         \<and> fs (specFilePath specId parts) = Some content
         \<and> i < length (split_on NL content)
         \<and> (let lines = split_on NL content;
                 lines' = (if r = Updated then lines[i := newFieldLine clickupTaskId]
                           else take (Suc i) lines @ [newFieldLine clickupTaskId] @ drop (Suc i) lines)
             in (if r = Updated then fieldLine (lines ! i) \<and> (\<forall>j<i. \<not> fieldLine (lines ! j))
                 else r = Added \<and> idLine (lines ! i) \<and> (\<forall>l\<in>set lines. \<not> fieldLine l))
              \<and> fs' = fs(specFilePath specId parts \<mapsto> join_with [NL] lines')
              \<and> (NL \<notin> set clickupTaskId \<longrightarrow> split_on NL (join_with [NL] lines') = lines'))"
proof -
  obtain parts content i where parts: "parseSpecId specId = Some parts"
    and content: "fs (specFilePath specId parts) = Some content"
    and cases: "(r = Updated \<and> findIndex fieldLine (split_on NL content) = Some i
        \<and> fs' = fs(specFilePath specId parts \<mapsto>
                    join_with [NL] ((split_on NL content)[i := newFieldLine clickupTaskId])))
     \<or> (r = Added \<and> findIndex fieldLine (split_on NL content) = None
        \<and> findIndex idLine (split_on NL content) = Some i
        \<and> fs' = fs(specFilePath specId parts \<mapsto>
                    join_with [NL] (take (Suc i) (split_on NL content)
                                      @ [newFieldLine clickupTaskId]
                                      @ drop (Suc i) (split_on NL content))))"
    using assms by (rule write_back_cases)
  let ?lines = "split_on NL content"
  from cases show ?thesis
  proof
    assume u: "r = Updated \<and> findIndex fieldLine ?lines = Some i
        \<and> fs' = fs(specFilePath specId parts \<mapsto>
                    join_with [NL] (?lines[i := newFieldLine clickupTaskId]))"
    then have i: "i < length ?lines" "fieldLine (?lines ! i)" "\<forall>j<i. \<not> fieldLine (?lines ! j)"
      using findIndex_Some [of fieldLine ?lines i] by simp_all
    show ?thesis
      using parts content u i lines_after_write(1) [of clickupTaskId i content]
      by (intro exI [of _ parts] exI [of _ content] exI [of _ i]) (simp add: Let_def)
  next
    assume a: "r = Added \<and> findIndex fieldLine ?lines = None
        \<and> findIndex idLine ?lines = Some i
        \<and> fs' = fs(specFilePath specId parts \<mapsto>
                    join_with [NL] (take (Suc i) ?lines @ [newFieldLine clickupTaskId]
                                      @ drop (Suc i) ?lines))"
    then have i: "i < length ?lines" "idLine (?lines ! i)"
      using findIndex_Some [of idLine ?lines i] by simp_all
    have nf: "\<forall>l\<in>set ?lines. \<not> fieldLine l"
      using a findIndex_None [of fieldLine ?lines] by simp
    show ?thesis
      using parts content a i nf lines_after_write(2) [of clickupTaskId i content]
      by (intro exI [of _ parts] exI [of _ content] exI [of _ i]) (simp add: Let_def)
  qed
qed

theorem write_back_keeps_other_lines_witness:
  "fst (updateSpecFileWithTaskId ''E02-F01-T01'' ''86a1'' scenarioFiles) = Added
   \<and> wrote Added
   \<and> (\<exists>parts content i.
           parseSpecId ''E02-F01-T01'' = Some parts
         \<and> scenarioFiles (specFilePath ''E02-F01-T01'' parts) = Some content
         \<and> i < length (split_on NL content)
         \<and> idLine (split_on NL content ! i)
         \<and> snd (updateSpecFileWithTaskId ''E02-F01-T01'' ''86a1'' scenarioFiles)
             = scenarioFiles(specFilePath ''E02-F01-T01'' parts \<mapsto>
                 join_with [NL] (take (Suc i) (split_on NL content) @ [newFieldLine ''86a1'']
                                   @ drop (Suc i) (split_on NL content))))"
proof -
  have a: "fst (updateSpecFileWithTaskId ''E02-F01-T01'' ''86a1'' scenarioFiles) = Added"
    by code_simp
  then have call: "updateSpecFileWithTaskId ''E02-F01-T01'' ''86a1'' scenarioFiles
                     = (Added, snd (updateSpecFileWithTaskId ''E02-F01-T01'' ''86a1'' scenarioFiles))"
    by (metis prod.collapse)
  have w: "wrote Added" by (simp add: wrote_def)
  show ?thesis
    using write_back_keeps_other_lines [OF call w] a w
    by (simp add: Let_def) blast
qed

section \<open>Write-back: the first identifier stays\<close>

lemma matchQuotedId_field:
  "matchQuotedId (''clickup_task_id:'' @ s) =
     (case dropWhile is_space s of
        [] \<Rightarrow> None
      | q # r \<Rightarrow>
          if q \<noteq> QUOTE then None
          else (let g = takeWhile (\<lambda>c. c \<noteq> QUOTE) r
                in if g = [] then None
                   else (case dropWhile (\<lambda>c. c \<noteq> QUOTE) r of
                           [] \<Rightarrow> None
                         | _ # _ \<Rightarrow> Some g)))"
  by (simp add: matchQuotedId_def startsWith_def)

lemma matchQuotedId_starts:
  assumes "matchQuotedId s = Some g"
  shows "\<exists>s'. s = ''clickup_task_id:'' @ s'"
proof -
  have "take (length ''clickup_task_id:'') s = ''clickup_task_id:''"
    using assms by (auto simp: matchQuotedId_def startsWith_def split: if_splits)
  then have "s = ''clickup_task_id:'' @ drop (length ''clickup_task_id:'') s"
    by (metis append_take_drop_id)
  then show ?thesis by blast
qed

lemma trim_nonempty:
  assumes "c \<in> set g" and "\<not> is_space c"
  shows "trim g \<noteq> []"
proof -
  have keep: "c \<in> set (dropWhile is_space xs)" if "c \<in> set xs" for xs
    using that assms(2) by (induction xs) auto
  have "c \<in> set (dropWhile is_space (rev (dropWhile is_space g)))"
    using keep [of g] keep [of "rev (dropWhile is_space g)"] assms(1) by simp
  then have "dropWhile is_space (rev (dropWhile is_space g)) \<noteq> []"
    by (metis empty_iff empty_set)
  then show ?thesis
    by (simp add: trim_def)
qed

lemma newFieldLine_match:
  assumes "remoteIdToken t"
  shows "matchQuotedId (newFieldLine t @ rest) = Some t"
proof -
  have q: "\<forall>c\<in>set t. c \<noteq> QUOTE" and ne: "t \<noteq> []"
    using assms by (auto simp: remoteIdToken_def list_all_iff)
  have tw: "takeWhile (\<lambda>c. c \<noteq> QUOTE) (t @ QUOTE # rest) = t"
    using q by (simp add: takeWhile_append2)
  have dw: "dropWhile (\<lambda>c. c \<noteq> QUOTE) (t @ QUOTE # rest) = QUOTE # rest"
    using q by (simp add: dropWhile_append2)
  have "newFieldLine t @ rest = ''clickup_task_id:'' @ ('' '' @ QUOTE # t @ QUOTE # rest)"
    by (simp add: newFieldLine_def)
  moreover have "dropWhile is_space ('' '' @ QUOTE # t @ QUOTE # rest) = QUOTE # t @ QUOTE # rest"
    by (simp add: is_space_def QUOTE_def)
  ultimately show ?thesis
    using tw dw ne by (simp only: matchQuotedId_field) (simp add: Let_def)
qed

lemma newFieldLine_takeWhile:
  "takeWhile (\<lambda>c. c \<noteq> QUOTE) (newFieldLine t @ rest) = ''clickup_task_id: ''"
  by (simp add: newFieldLine_def QUOTE_def)

lemma newFieldLine_head:
  "\<exists>r. newFieldLine t @ rest = CHR ''c'' # r"
  by (simp add: newFieldLine_def)

lemma match_before_new_line:
  assumes m: "matchQuotedId (X @ NL # newFieldLine t @ B) = Some g"
  shows "(\<forall>Z. matchQuotedId (X @ Z) = Some g) \<or> trim g \<noteq> []"
proof -
  define F where "F = ''clickup_task_id:''"
  define Y where "Y = newFieldLine t @ B"
  have NLF: "NL \<notin> set F" by (simp add: F_def NL_def)
  have fld: "matchQuotedId (F @ s) =
     (case dropWhile is_space s of
        [] \<Rightarrow> None
      | q # r \<Rightarrow>
          if q \<noteq> QUOTE then None
          else (let g = takeWhile (\<lambda>c. c \<noteq> QUOTE) r
                in if g = [] then None
                   else (case dropWhile (\<lambda>c. c \<noteq> QUOTE) r of
                           [] \<Rightarrow> None
                         | _ # _ \<Rightarrow> Some g)))" for s
    unfolding F_def by (rule matchQuotedId_field)
  obtain s' where s': "X @ NL # Y = F @ s'"
    using matchQuotedId_starts [OF m] by (auto simp: F_def Y_def)
  obtain X2 where X2: "X = F @ X2"
  proof -
    from s' consider us where "X = F @ us" | us where "X @ us = F" "NL # Y = us @ s'"
      by (auto simp: append_eq_append_conv2)
    then show ?thesis
    proof cases
      case 1
      then show ?thesis using that by blast
    next
      case 2
      show ?thesis
      proof (cases us)
        case Nil
        then show ?thesis using 2 that [of "[]"] by simp
      next
        case (Cons u us')
        then have "u = NL" using 2(2) by simp
        then have "NL \<in> set F" using 2(1) Cons by (metis in_set_conv_decomp)
        then show ?thesis using NLF by simp
      qed
    qed
  qed
  have spaceNL: "is_space NL" by (simp add: is_space_def NL_def)
  have nsc: "\<not> is_space (CHR ''c'')" by (simp add: is_space_def)
  have Yc: "\<exists>r. Y = CHR ''c'' # r"
    unfolding Y_def by (rule newFieldLine_head)
  have m': "matchQuotedId (F @ (X2 @ NL # Y)) = Some g"
    using m by (simp add: X2 Y_def)
  show ?thesis
  proof (cases "\<forall>c\<in>set X2. is_space c")
    case True
    obtain r0 where r0: "Y = CHR ''c'' # r0" using Yc by blast
    have "dropWhile is_space (X2 @ NL # Y) = dropWhile is_space (NL # Y)"
      using True by (simp add: dropWhile_append2)
    also have "\<dots> = dropWhile is_space Y"
      using spaceNL by simp
    also have "\<dots> = CHR ''c'' # r0"
      using nsc by (simp add: r0)
    finally have "dropWhile is_space (X2 @ NL # Y) = CHR ''c'' # r0" .
    then have "matchQuotedId (F @ (X2 @ NL # Y)) = None"
      by (simp add: fld QUOTE_def)
    then show ?thesis using m' by simp
  next
    case False
    then obtain c where c: "c \<in> set X2" "\<not> is_space c" by blast
    have dw: "dropWhile is_space (X2 @ R) = dropWhile is_space X2 @ R" for R
      using c by (simp add: dropWhile_append1)
    have "dropWhile is_space X2 \<noteq> []"
      using c by (auto simp: dropWhile_eq_Nil_conv)
    then obtain q r where D: "dropWhile is_space X2 = q # r"
      by (cases "dropWhile is_space X2") simp_all
    have shape: "matchQuotedId (F @ (X2 @ R)) =
            (if q \<noteq> QUOTE then None
             else (let g = takeWhile (\<lambda>c. c \<noteq> QUOTE) (r @ R)
                   in if g = [] then None
                      else (case dropWhile (\<lambda>c. c \<noteq> QUOTE) (r @ R) of
                              [] \<Rightarrow> None
                            | _ # _ \<Rightarrow> Some g)))" for R
      by (simp add: fld dw D)
    have q: "q = QUOTE"
      using m' shape [of "NL # Y"] by (simp split: if_splits)
    show ?thesis
    proof (cases "QUOTE \<in> set r")
      case True
      have tw: "takeWhile (\<lambda>c. c \<noteq> QUOTE) (r @ R) = takeWhile (\<lambda>c. c \<noteq> QUOTE) r" for R
        using True by (simp add: takeWhile_append1)
      have dwq: "dropWhile (\<lambda>c. c \<noteq> QUOTE) (r @ R) = dropWhile (\<lambda>c. c \<noteq> QUOTE) r @ R" for R
        using True by (simp add: dropWhile_append1)
      have dne: "dropWhile (\<lambda>c. c \<noteq> QUOTE) r \<noteq> []"
        using True by (auto simp: dropWhile_eq_Nil_conv)
      have val: "matchQuotedId (F @ (X2 @ R)) =
                  (if takeWhile (\<lambda>c. c \<noteq> QUOTE) r = [] then None
                   else Some (takeWhile (\<lambda>c. c \<noteq> QUOTE) r))" for R
        using dne
        by (cases "dropWhile (\<lambda>c. c \<noteq> QUOTE) r")
           (simp_all add: shape q tw dwq Let_def)
      have "matchQuotedId (F @ (X2 @ Z)) = Some g" for Z
        using m' val [of "NL # Y"] val [of Z] by simp
      then show ?thesis by (simp add: X2)
    next
      case False
      have nq: "\<And>x. x \<in> set r \<Longrightarrow> x \<noteq> QUOTE"
        using False by auto
      have "NL \<noteq> QUOTE" by (simp add: NL_def QUOTE_def)
      then have "takeWhile (\<lambda>c. c \<noteq> QUOTE) (r @ NL # Y) = r @ NL # takeWhile (\<lambda>c. c \<noteq> QUOTE) Y"
        using takeWhile_append2 [of r "\<lambda>c. c \<noteq> QUOTE" "NL # Y", OF nq] by simp
      then have tw: "takeWhile (\<lambda>c. c \<noteq> QUOTE) (r @ NL # Y) = r @ NL # ''clickup_task_id: ''"
        by (simp add: Y_def newFieldLine_takeWhile)
      have "g = r @ NL # ''clickup_task_id: ''"
        using m' shape [of "NL # Y"]
        by (simp add: q tw Let_def split: if_splits list.splits)
      then have "CHR ''c'' \<in> set g" by simp
      moreover have "\<not> is_space (CHR ''c'')" by (simp add: is_space_def)
      ultimately have "trim g \<noteq> []" by (rule trim_nonempty)
      then show ?thesis by simp
    qed
  qed
qed


lemma existingIdMatch_None_drop:
  "existingIdMatch s = None \<Longrightarrow> matchQuotedId (drop p s) = None"
proof (induction s arbitrary: p)
  case Nil
  then show ?case by simp
next
  case (Cons c cs)
  have here: "matchQuotedId (c # cs) = None" and rest: "existingIdMatch cs = None"
    using Cons.prems by (auto split: option.splits)
  show ?case
  proof (cases p)
    case 0
    then show ?thesis using here by simp
  next
    case (Suc k)
    then show ?thesis using Cons.IH [OF rest, of k] by simp
  qed
qed

lemma existingIdMatch_new_line:
  assumes tok: "remoteIdToken t"
  shows "\<exists>g. existingIdMatch (newFieldLine t @ B) = Some g \<and> trim g \<noteq> []"
proof -
  obtain r where r: "newFieldLine t @ B = CHR ''c'' # r"
    using newFieldLine_head by blast
  have "matchQuotedId (CHR ''c'' # r) = Some t"
    using newFieldLine_match [OF tok, of B] r by simp
  then have "existingIdMatch (newFieldLine t @ B) = Some t"
    using r by simp
  moreover have "trim t \<noteq> []"
  proof -
    obtain c where "c \<in> set t" "\<not> is_space c"
      using tok by (cases t) (auto simp: remoteIdToken_def)
    then show ?thesis by (rule trim_nonempty)
  qed
  ultimately show ?thesis by blast
qed

lemma existingIdMatch_after_write:
  assumes tok: "remoteIdToken t"
    and old: "\<forall>p\<le>length X. matchQuotedId (drop p X @ Z0) = None"
  shows "\<exists>g. existingIdMatch (X @ NL # newFieldLine t @ B) = Some g \<and> trim g \<noteq> []"
  using old
proof (induction X)
  case Nil
  have "matchQuotedId (NL # newFieldLine t @ B) = None"
    by (simp add: matchQuotedId_def startsWith_def NL_def)
  then have "existingIdMatch ([] @ NL # newFieldLine t @ B) = existingIdMatch (newFieldLine t @ B)"
    by simp
  then show ?case using existingIdMatch_new_line [OF tok, of B] by simp
next
  case (Cons x X)
  show ?case
  proof (cases "matchQuotedId ((x # X) @ NL # newFieldLine t @ B)")
    case None
    have "\<forall>p\<le>length X. matchQuotedId (drop p X @ Z0) = None"
    proof (intro allI impI)
      fix p assume "p \<le> length X"
      then have "matchQuotedId (drop (Suc p) (x # X) @ Z0) = None"
        using Cons.prems by (metis Suc_le_mono length_Cons)
      then show "matchQuotedId (drop p X @ Z0) = None" by simp
    qed
    then have "\<exists>g. existingIdMatch (X @ NL # newFieldLine t @ B) = Some g \<and> trim g \<noteq> []"
      by (rule Cons.IH)
    then show ?thesis using None by simp
  next
    case (Some g)
    have "matchQuotedId ((x # X) @ Z0) = None"
      using Cons.prems by (metis drop0 le0)
    then have "trim g \<noteq> []"
      using match_before_new_line [OF Some] by auto
    then show ?thesis using Some by simp
  qed
qed

lemma join_with_Cons:
  "join_with [c] (l # post) = l @ concat (map (\<lambda>y. c # y) post)"
  by (induction post arbitrary: l) simp_all

lemma join_with_split_at:
  "join_with [c] (pre @ l # post) =
     concat (map (\<lambda>x. x @ [c]) pre) @ l @ concat (map (\<lambda>y. c # y) post)"
proof (induction pre)
  case Nil
  then show ?case by (simp add: join_with_Cons)
next
  case (Cons a pre)
  then show ?case by (cases pre) (simp_all add: join_with_Cons)
qed

lemma join_with_snoc:
  "pre \<noteq> [] \<Longrightarrow> concat (map (\<lambda>x. x @ [c]) pre) = join_with [c] pre @ [c]"
proof (induction pre)
  case Nil
  then show ?case by simp
next
  case (Cons a pre)
  then show ?case by (cases pre) simp_all
qed

lemma join_with_append:
  "join_with [c] (pre @ post) = join_with [c] pre @ concat (map (\<lambda>y. c # y) post)"
    if "pre \<noteq> []"
  using that
proof (induction pre)
  case Nil
  then show ?case by simp
next
  case (Cons a pre)
  show ?case
  proof (cases pre)
    case Nil
    then show ?thesis by (simp add: join_with_Cons)
  next
    case (Cons b pre')
    then show ?thesis using Cons.IH by simp
  qed
qed


lemma token_no_NL: "remoteIdToken t \<Longrightarrow> NL \<notin> set t"
  by (auto simp: remoteIdToken_def list_all_iff is_space_def NL_def)

lemma detected_after_write:
  assumes tok: "remoteIdToken t"
    and old: "existingIdMatch (join_with [NL] lines) = None"
    and i: "i < length lines"
    and new: "lines' = lines[i := newFieldLine t]
              \<or> lines' = take (Suc i) lines @ [newFieldLine t] @ drop (Suc i) lines"
  shows "\<exists>g. existingIdMatch (join_with [NL] lines') = Some g \<and> trim g \<noteq> []"
proof -
  let ?L = "newFieldLine t"
  let ?S = "\<lambda>post. concat (map (\<lambda>y. NL # y) post)"
  have none: "matchQuotedId (drop p (join_with [NL] lines)) = None" for p
    using old by (rule existingIdMatch_None_drop)
  from new show ?thesis
  proof
    assume upd: "lines' = lines[i := ?L]"
    let ?pre = "take i lines" and ?post = "drop (Suc i) lines"
    have l: "lines = ?pre @ lines ! i # ?post"
      using i by (rule id_take_nth_drop)
    have l': "lines' = ?pre @ ?L # ?post"
      using i upd by (simp add: upd_conv_take_nth_drop)
    show ?thesis
    proof (cases "?pre = []")
      case True
      have "lines' = ?L # ?post"
        using l' unfolding True by (simp only: append_Nil)
      then have "join_with [NL] lines' = ?L @ ?S ?post"
        by (simp only: join_with_Cons)
      then show ?thesis using existingIdMatch_new_line [OF tok] by simp
    next
      case False
      let ?X = "join_with [NL] ?pre"
      have c1: "join_with [NL] lines' = ?X @ NL # ?L @ ?S ?post"
        using l' False by (simp add: join_with_split_at join_with_snoc)
      have c0: "join_with [NL] lines = ?X @ (NL # lines ! i @ ?S ?post)"
        using False join_with_split_at [of NL ?pre "lines ! i" ?post] l
        by (simp add: join_with_snoc)
      have "\<forall>p\<le>length ?X. matchQuotedId (drop p ?X @ (NL # lines ! i @ ?S ?post)) = None"
      proof (intro allI impI)
        fix p assume "p \<le> length ?X"
        then have "drop p ?X @ (NL # lines ! i @ ?S ?post) = drop p (join_with [NL] lines)"
          unfolding c0 by simp
        then show "matchQuotedId (drop p ?X @ (NL # lines ! i @ ?S ?post)) = None"
          using none by simp
      qed
      then show ?thesis
        unfolding c1 by (rule existingIdMatch_after_write [OF tok])
    qed
  next
    assume ins: "lines' = take (Suc i) lines @ [?L] @ drop (Suc i) lines"
    let ?pre = "take (Suc i) lines" and ?post = "drop (Suc i) lines"
    have ne: "?pre \<noteq> []" using i by auto
    let ?X = "join_with [NL] ?pre"
    have c1: "join_with [NL] lines' = ?X @ NL # ?L @ ?S ?post"
      using ins ne by (simp add: join_with_split_at join_with_snoc)
    have "join_with [NL] (?pre @ ?post) = ?X @ ?S ?post"
      using ne by (rule join_with_append)
    then have c0: "join_with [NL] lines = ?X @ ?S ?post"
      by simp
    have "\<forall>p\<le>length ?X. matchQuotedId (drop p ?X @ ?S ?post) = None"
    proof (intro allI impI)
      fix p assume "p \<le> length ?X"
      then have "drop p ?X @ ?S ?post = drop p (join_with [NL] lines)"
        unfolding c0 by simp
      then show "matchQuotedId (drop p ?X @ ?S ?post) = None"
        using none by simp
    qed
    then show ?thesis
      unfolding c1 by (rule existingIdMatch_after_write [OF tok])
  qed
qed

lemma findIndex_Some_ex: "x \<in> set xs \<Longrightarrow> P x \<Longrightarrow> \<exists>i. findIndex P xs = Some i"
  by (induction xs) (auto split: option.splits)

text \<open>
  A file without an \<open>id:\<close> line and without a field line is refused by the guard for
  the missing line, on every call: no identifier is written.
\<close>

lemma document_without_id_line_is_refused:
  "fst (updateSpecFileWithTaskId ''E01'' ''86a1'' headlessFiles) = NoIdLine
   \<and> fst (updateSpecFileWithTaskId ''E01'' ''86b2''
            (snd (updateSpecFileWithTaskId ''E01'' ''86a1'' headlessFiles))) = NoIdLine"
  by code_simp

text \<open>
  C4. The claim is that of two calls of \<open>updateSpecFileWithTaskId\<close> with different remote
  identifiers the second finds the value of the first, changes nothing and reports it as
  already set. The code tests for a value that is already set with a pattern that is
  not anchored to the field line, and reads the leftmost match. On the document of the
  epic \<open>E01\<close> whose header has a comment line that shows the field with a blank quoted
  value, the first call inserts the field line with \<open>86a1\<close>; the second call reads the
  blank value of the comment again, does not see the line that the first call wrote,
  replaces it and reports a write: the file ends with \<open>86b2\<close> and without \<open>86a1\<close>.
\<close>

theorem second_write_back_can_replace_first:
  "fst (updateSpecFileWithTaskId ''E01'' ''86a1'' commentedFiles) = Added
   \<and> map_option (\<lambda>c. newFieldLine ''86a1'' \<in> set (split_on NL c))
        (snd (updateSpecFileWithTaskId ''E01'' ''86a1'' commentedFiles)
           [''E01'', ''E01.spec.md''])
       = Some True
   \<and> fst (updateSpecFileWithTaskId ''E01'' ''86b2''
            (snd (updateSpecFileWithTaskId ''E01'' ''86a1'' commentedFiles))) = Updated
   \<and> wrote (fst (updateSpecFileWithTaskId ''E01'' ''86b2''
                   (snd (updateSpecFileWithTaskId ''E01'' ''86a1'' commentedFiles))))
   \<and> map_option (\<lambda>c. (newFieldLine ''86a1'' \<in> set (split_on NL c),
                       newFieldLine ''86b2'' \<in> set (split_on NL c)))
        (snd (updateSpecFileWithTaskId ''E01'' ''86b2''
                (snd (updateSpecFileWithTaskId ''E01'' ''86a1'' commentedFiles)))
           [''E01'', ''E01.spec.md''])
       = Some (False, True)"
  by code_simp

text \<open>
  Where the defect does not show. Take a document that has a line that starts with
  \<open>clickup_task_id:\<close> or an \<open>id:\<close> line, and in which the pattern of the test matches
  nowhere before the first call. Take a first remote identifier that is not empty and
  has neither a quote nor white space, and any second identifier. Then the first call
  writes the field line with the first identifier, and the second call finds it,
  changes no file and reports it as already set.
\<close>

lemma second_call_is_no_op_when_pattern_unmatched:
  assumes parts: "parseSpecId specId = Some parts"
    and content: "fs (specFilePath specId parts) = Some content"
    and fresh: "existingIdMatch content = None"
    and anchor: "list_ex (\<lambda>l. fieldLine l \<or> idLine l) (split_on NL content)"
    and tok: "remoteIdToken firstId"
  shows "\<exists>r1 fs1 content1 g.
           updateSpecFileWithTaskId specId firstId fs = (r1, fs1) \<and> wrote r1
         \<and> fs1 (specFilePath specId parts) = Some content1
         \<and> newFieldLine firstId \<in> set (split_on NL content1)
         \<and> updateSpecFileWithTaskId specId secondId fs1 = (AlreadySet g, fs1)
         \<and> \<not> wrote (AlreadySet g)"
proof -
  let ?p = "specFilePath specId parts"
  let ?lines = "split_on NL content"
  let ?L = "newFieldLine firstId"
  obtain r1 fs1 where call1: "updateSpecFileWithTaskId specId firstId fs = (r1, fs1)"
    by (cases "updateSpecFileWithTaskId specId firstId fs") blast
  have w1: "wrote r1"
  proof (cases "findIndex fieldLine ?lines")
    case (Some i)
    then show ?thesis
      using call1 parts content fresh
      by (auto simp: updateSpecFileWithTaskId_def Let_def wrote_def)
  next
    case None
    then have "\<forall>l\<in>set ?lines. \<not> fieldLine l" by (rule findIndex_None)
    then obtain l where "l \<in> set ?lines" "idLine l"
      using anchor by (auto simp: list_ex_iff)
    then obtain i where "findIndex idLine ?lines = Some i"
      using findIndex_Some_ex by metis
    then show ?thesis
      using call1 parts content fresh None
      by (auto simp: updateSpecFileWithTaskId_def Let_def wrote_def)
  qed
  obtain parts' content' i where sh:
    "parseSpecId specId = Some parts'" "fs (specFilePath specId parts') = Some content'"
    "(r1 = Updated \<and> findIndex fieldLine (split_on NL content') = Some i
        \<and> fs1 = fs(specFilePath specId parts' \<mapsto>
                    join_with [NL] ((split_on NL content')[i := newFieldLine firstId])))
     \<or> (r1 = Added \<and> findIndex fieldLine (split_on NL content') = None
        \<and> findIndex idLine (split_on NL content') = Some i
        \<and> fs1 = fs(specFilePath specId parts' \<mapsto>
                    join_with [NL] (take (Suc i) (split_on NL content')
                                      @ [newFieldLine firstId]
                                      @ drop (Suc i) (split_on NL content'))))"
    using call1 w1 by (rule write_back_cases)
  have same: "parts' = parts" "content' = content"
    using sh(1,2) parts content by simp_all
  have i: "i < length ?lines"
    using sh(3) findIndex_Some [of fieldLine ?lines i] findIndex_Some [of idLine ?lines i]
    unfolding same by auto
  define lines' where "lines' = (if r1 = Updated then ?lines[i := ?L]
                    else take (Suc i) ?lines @ [?L] @ drop (Suc i) ?lines)"
  have fs1: "fs1 = fs(?p \<mapsto> join_with [NL] lines')"
    using sh(3) unfolding same lines'_def by auto
  have sp: "split_on NL (join_with [NL] lines') = lines'"
    using lines_after_write [OF token_no_NL [OF tok] i] unfolding lines'_def by simp
  have mem: "?L \<in> set lines'"
    using i unfolding lines'_def by (auto simp: set_update_memI)
  have new: "lines' = ?lines[i := ?L] \<or> lines' = take (Suc i) ?lines @ [?L] @ drop (Suc i) ?lines"
    unfolding lines'_def by simp
  have "existingIdMatch (join_with [NL] ?lines) = None"
    using fresh by simp
  then obtain g where g: "existingIdMatch (join_with [NL] lines') = Some g" "trim g \<noteq> []"
    using detected_after_write [OF tok _ i new] by blast
  then have gne: "g \<noteq> []" by (auto simp: trim_def)
  have call2: "updateSpecFileWithTaskId specId secondId fs1 = (AlreadySet g, fs1)"
    using parts g gne by (simp add: updateSpecFileWithTaskId_def Let_def fs1)
  show ?thesis
    using call1 w1 call2 fs1 sp mem
    by (intro exI [of _ r1] exI [of _ fs1] exI [of _ "join_with [NL] lines'"] exI [of _ g])
       (simp add: wrote_def)
qed

lemma second_call_is_no_op_in_the_scenario:
  "parseSpecId ''E02-F01-T01''
     = Some \<lparr> epic = ''E02'', feature = Some ''F01'', task = Some ''T01'', subtask = None,
              extension = None, level = Task \<rparr>
   \<and> existingIdMatch (header ''E02-F01-T01'') = None
   \<and> remoteIdToken ''86a1''
   \<and> (\<exists>r1 fs1 content1 g.
           updateSpecFileWithTaskId ''E02-F01-T01'' ''86a1'' scenarioFiles = (r1, fs1) \<and> wrote r1
         \<and> fs1 [''E02'', ''F01'', ''T01'', ''E02-F01-T01.spec.md''] = Some content1
         \<and> newFieldLine ''86a1'' \<in> set (split_on NL content1)
         \<and> updateSpecFileWithTaskId ''E02-F01-T01'' ''86b2'' fs1 = (AlreadySet g, fs1))"
proof -
  let ?parts = "\<lparr> epic = ''E02'', feature = Some ''F01'', task = Some ''T01'', subtask = None,
                  extension = None, level = Task \<rparr>"
  have p: "parseSpecId ''E02-F01-T01'' = Some ?parts"
    by code_simp
  have path: "specFilePath ''E02-F01-T01'' ?parts = [''E02'', ''F01'', ''T01'', ''E02-F01-T01.spec.md'']"
    by code_simp
  have c: "scenarioFiles (specFilePath ''E02-F01-T01'' ?parts) = Some (header ''E02-F01-T01'')"
    unfolding path by (simp add: scenarioFiles_def)
  have f: "existingIdMatch (header ''E02-F01-T01'') = None"
    by code_simp
  have a: "list_ex (\<lambda>l. fieldLine l \<or> idLine l) (split_on NL (header ''E02-F01-T01''))"
    by code_simp
  have t: "remoteIdToken ''86a1''"
    by code_simp
  show ?thesis
    using second_call_is_no_op_when_pattern_unmatched
            [where specId = "''E02-F01-T01''" and parts = ?parts and fs = scenarioFiles
               and content = "header ''E02-F01-T01''" and firstId = "''86a1''"
               and secondId = "''86b2''", OF p c f a t]
      p f t
    unfolding path by blast
qed

end
